theory Spec2Isabelle
  imports Complex_Main "HOL-Library.Multiset"
begin

section \<open>R-tree index of code\_v2\_linear\_square.py: shallow embedding\<close>

text \<open>
  Python floats are idealised as \<^typ>\<open>real\<close>: comparisons, \<open>min\<close> and \<open>max\<close> are exact in
  both worlds, arithmetic and the trigonometric functions are taken without rounding.
  The mutable node objects become an immutable tree value that every operation takes and
  returns.  A node's \<open>parent\<close> back-reference is only followed by \<open>_handle_overflow\<close>, which
  walks the path that \<open>_choose_leaf\<close> has just descended; in the embedding that walk is the
  return path of the recursion \<open>ins\<close>.  Every place where the Python would raise is a
  branch of the model that returns \<open>Inl\<close> of the exception.
\<close>

datatype error = ValueError | AttributeError | ZeroDivisionError

subsection \<open>Point and MBR\<close>

record 'd Point =
  lat :: real
  lon :: real
  data :: 'd

record MBR =
  min_lat :: real
  max_lat :: real
  min_lon :: real
  max_lon :: real

text \<open>\<open>math.radians\<close>.\<close>

definition radians :: "real \<Rightarrow> real" where
  "radians x = x * (pi / 180)"

text \<open>The quantity \<open>a\<close> of \<open>Point.distance_to\<close>, with \<open>self = p\<close> and \<open>other = q\<close>.\<close>

definition hav_a :: "'d Point \<Rightarrow> 'd Point \<Rightarrow> real" where
  "hav_a p q =
     (let lat1 = radians (lat p); lon1 = radians (lon p);
          lat2 = radians (lat q); lon2 = radians (lon q);
          dlat = lat2 - lat1; dlon = lon2 - lon1
      in (sin (dlat / 2))\<^sup>2 + cos lat1 * cos lat2 * (sin (dlon / 2))\<^sup>2)"

text \<open>\<open>Point.distance_to\<close>: haversine distance in km, \<open>R = 6371\<close>.\<close>

definition distance_to :: "'d Point \<Rightarrow> 'd Point \<Rightarrow> real" where
  "distance_to p q = 6371 * (2 * arcsin (sqrt (hav_a p q)))"

definition area :: "MBR \<Rightarrow> real" where
  "area m = (max_lat m - min_lat m) * (max_lon m - min_lon m)"

definition contains_point :: "MBR \<Rightarrow> 'd Point \<Rightarrow> bool" where
  "contains_point m p \<longleftrightarrow>
     (min_lat m \<le> lat p \<and> lat p \<le> max_lat m) \<and> (min_lon m \<le> lon p \<and> lon p \<le> max_lon m)"

definition intersects_square :: "MBR \<Rightarrow> real \<Rightarrow> real \<Rightarrow> real \<Rightarrow> real \<Rightarrow> bool" where
  "intersects_square m center_lat center_lon half_side_lat half_side_lon =
     (let square_min_lat = center_lat - half_side_lat;
          square_max_lat = center_lat + half_side_lat;
          square_min_lon = center_lon - half_side_lon;
          square_max_lon = center_lon + half_side_lon
      in if max_lat m < square_min_lat then False
         else if min_lat m > square_max_lat then False
         else if max_lon m < square_min_lon then False
         else if min_lon m > square_max_lon then False
         else True)"

definition expand_to_include_mbr :: "MBR \<Rightarrow> MBR \<Rightarrow> MBR" where
  "expand_to_include_mbr m other =
     \<lparr>min_lat = min (min_lat m) (min_lat other),
      max_lat = max (max_lat m) (max_lat other),
      min_lon = min (min_lon m) (min_lon other),
      max_lon = max (max_lon m) (max_lon other)\<rparr>"

definition from_point :: "'d Point \<Rightarrow> MBR" where
  "from_point p = \<lparr>min_lat = lat p, max_lat = lat p, min_lon = lon p, max_lon = lon p\<rparr>"

subsection \<open>Nodes\<close>

text \<open>
  \<open>RTreeNode\<close>: the flag \<open>is_leaf\<close> selects the constructor; a leaf's entries pair an MBR
  with a point, an internal node's entries pair an MBR with a child node.  The MBR stored
  in an entry and the cached \<open>mbr\<close> of the child it points to are separate values, as in
  the source, where the entry tuple keeps the MBR object it was built with.
\<close>

datatype 'd RTreeNode =
    is_leaf: Leaf (mbr: "MBR option") (leaf_entries: "(MBR \<times> 'd Point) list")
  | Inner (mbr: "MBR option") (child_entries: "(MBR \<times> 'd RTreeNode) list")

text \<open>\<open>RTreeNode.update_mbr\<close>, as a function of the entry list; \<open>None\<close> when it is empty.\<close>

fun update_mbr :: "(MBR \<times> 'x) list \<Rightarrow> MBR option" where
  "update_mbr [] = None"
| "update_mbr (e # es) = Some (foldl (\<lambda>m e'. expand_to_include_mbr m (fst e')) (fst e) es)"

record 'd RTree =
  max_entries :: int
  min_entries :: int
  root_node :: "'d RTreeNode"

text \<open>\<open>RTree.__init__\<close>; \<open>//\<close> on Python ints is floor division, as \<open>div\<close> on \<^typ>\<open>int\<close>.\<close>

definition RTree_init :: "int \<Rightarrow> 'd RTree" where
  "RTree_init n = \<lparr>max_entries = n, min_entries = max 2 (n div 2), root_node = Leaf None []\<rparr>"

subsection \<open>\<open>_choose_leaf\<close>\<close>

text \<open>
  The loop of \<open>_choose_leaf\<close> over the entries of an internal node.  The state is
  \<open>(best_entry, min_enlargement, min_area)\<close>; \<open>float('inf')\<close> is \<open>None\<close>, and a real number
  is below it and different from it.  \<open>best_entry\<close> is kept as the index of the entry.
\<close>

definition lt_inf :: "real \<Rightarrow> real option \<Rightarrow> bool" where
  "lt_inf x y = (case y of None \<Rightarrow> True | Some y' \<Rightarrow> x < y')"

definition eq_inf :: "real \<Rightarrow> real option \<Rightarrow> bool" where
  "eq_inf x y = (case y of None \<Rightarrow> False | Some y' \<Rightarrow> x = y')"

definition choose_step ::
  "MBR \<Rightarrow> nat \<Rightarrow> MBR \<times> 'x \<Rightarrow> nat option \<times> real option \<times> real option
     \<Rightarrow> nat option \<times> real option \<times> real option" where
  "choose_step m i e st =
     (case st of (best_entry, min_enlargement, min_area) \<Rightarrow>
      let entry_mbr = fst e;
          enlarged_mbr = expand_to_include_mbr entry_mbr m;
          enlargement = area enlarged_mbr - area entry_mbr
      in if lt_inf enlargement min_enlargement
            \<or> (eq_inf enlargement min_enlargement \<and> lt_inf (area entry_mbr) min_area)
         then (Some i, Some enlargement, Some (area entry_mbr))
         else (best_entry, min_enlargement, min_area))"

fun choose_loop ::
  "MBR \<Rightarrow> nat \<Rightarrow> (MBR \<times> 'x) list \<Rightarrow> nat option \<times> real option \<times> real option
     \<Rightarrow> nat option \<times> real option \<times> real option" where
  "choose_loop m i [] st = st"
| "choose_loop m i (e # es) st = choose_loop m (Suc i) es (choose_step m i e st)"

definition choose_subtree :: "MBR \<Rightarrow> (MBR \<times> 'x) list \<Rightarrow> nat option" where
  "choose_subtree m es = fst (choose_loop m 0 es (None, None, None))"

subsection \<open>\<open>_linear_pick_seeds\<close>\<close>

text \<open>\<open>min\<close> and \<open>max\<close> of a non-empty sequence (the caller rejects the empty one).\<close>

fun py_min :: "real list \<Rightarrow> real" where
  "py_min [] = 0"
| "py_min (x # xs) = foldl min x xs"

fun py_max :: "real list \<Rightarrow> real" where
  "py_max [] = 0"
| "py_max (x # xs) = foldl max x xs"

text \<open>
  The inner loop \<open>for i, (mbr, _) in enumerate(entries)\<close>: every entry whose low side is
  \<open>max_of_min\<close> overwrites \<open>seed1_idx\<close>, every entry whose high side is \<open>min_of_max\<close>
  overwrites \<open>seed2_idx\<close>.  \<open>lo\<close> and \<open>hi\<close> are the two sides of the axis.
\<close>

fun seed_loop ::
  "(MBR \<Rightarrow> real) \<Rightarrow> (MBR \<Rightarrow> real) \<Rightarrow> real \<Rightarrow> real \<Rightarrow> nat \<Rightarrow> (MBR \<times> 'x) list
     \<Rightarrow> nat \<times> nat \<Rightarrow> nat \<times> nat" where
  "seed_loop lo hi max_of_min min_of_max i [] s = s"
| "seed_loop lo hi max_of_min min_of_max i (e # es) (seed1_idx, seed2_idx) =
     seed_loop lo hi max_of_min min_of_max (Suc i) es
       (if lo (fst e) = max_of_min then i else seed1_idx,
        if hi (fst e) = min_of_max then i else seed2_idx)"

text \<open>
  One pass of \<open>for dim in ['lat', 'lon']\<close>.  The state is
  \<open>(max_separation, seed1_idx, seed2_idx)\<close>; \<open>-float('inf')\<close> is \<open>None\<close>.
\<close>

definition dim_step ::
  "(MBR \<Rightarrow> real) \<Rightarrow> (MBR \<Rightarrow> real) \<Rightarrow> (MBR \<times> 'x) list \<Rightarrow> real option \<times> nat \<times> nat
     \<Rightarrow> real option \<times> nat \<times> nat" where
  "dim_step lo hi entries st =
     (case st of (max_separation, seed1_idx, seed2_idx) \<Rightarrow>
      let min_of_max = py_min (map (\<lambda>e. hi (fst e)) entries);
          max_of_min = py_max (map (\<lambda>e. lo (fst e)) entries);
          overall_min = py_min (map (\<lambda>e. lo (fst e)) entries);
          overall_max = py_max (map (\<lambda>e. hi (fst e)) entries);
          width = overall_max - overall_min
      in if width > 0 then
           let separation = (max_of_min - min_of_max) / width
           in if (case max_separation of None \<Rightarrow> True | Some s \<Rightarrow> separation > s) then
                (case seed_loop lo hi max_of_min min_of_max 0 entries (seed1_idx, seed2_idx) of
                   (s1, s2) \<Rightarrow> (Some separation, s1, s2))
              else st
         else st)"

definition linear_pick_seeds :: "(MBR \<times> 'x) list \<Rightarrow> error + nat \<times> nat" where
  "linear_pick_seeds entries =
     (if entries = [] then Inl ValueError
      else
        (case dim_step min_lon max_lon entries
                (dim_step min_lat max_lat entries
                   (None, 0, if length entries > 1 then 1 else 0)) of
           (max_separation, seed1_idx, seed2_idx) \<Rightarrow>
             Inr (seed1_idx,
                  if seed1_idx = seed2_idx \<and> length entries > 1
                  then (seed1_idx + 1) mod length entries else seed2_idx)))"

subsection \<open>\<open>_split_node\<close>\<close>

text \<open>
  The distribution loop over \<open>remaining\<close>.  The state is the pair of entry lists of
  \<open>node1\<close> and \<open>node2\<close>; their cached MBRs are recomputed at the top of every round, and
  calling a method on an absent MBR is the \<open>AttributeError\<close> of the source.
\<close>

fun distribute ::
  "(MBR \<times> 'x) list \<Rightarrow> (MBR \<times> 'x) list \<times> (MBR \<times> 'x) list
     \<Rightarrow> error + (MBR \<times> 'x) list \<times> (MBR \<times> 'x) list" where
  "distribute [] st = Inr st"
| "distribute (entry # rest) (es1, es2) =
     (case (update_mbr es1, update_mbr es2) of
        (Some mbr1, Some mbr2) \<Rightarrow>
          (let enlarged1 = expand_to_include_mbr mbr1 (fst entry);
               enlarged2 = expand_to_include_mbr mbr2 (fst entry);
               enlargement1 = area enlarged1 - area mbr1;
               enlargement2 = area enlarged2 - area mbr2;
               to_node1 =
                 (if enlargement1 < enlargement2 then True
                  else if enlargement2 < enlargement1 then False
                  else if area mbr1 < area mbr2 then True
                  else if area mbr2 < area mbr1 then False
                  else length es1 \<le> length es2)
           in if to_node1 then distribute rest (es1 @ [entry], es2)
              else distribute rest (es1, es2 @ [entry]))
      | _ \<Rightarrow> Inl AttributeError)"

text \<open>\<open>remaining = [e for i, e in enumerate(entries) if i != seed1_idx and i != seed2_idx]\<close>\<close>

definition remaining :: "nat \<Rightarrow> nat \<Rightarrow> 'a list \<Rightarrow> 'a list" where
  "remaining seed1_idx seed2_idx entries =
     map snd (filter (\<lambda>(i, e). i \<noteq> seed1_idx \<and> i \<noteq> seed2_idx) (enumerate 0 entries))"

text \<open>
  \<open>_split_node\<close> on the entry list of the overflowing node; the result is the pair of
  entry lists of \<open>node1\<close> and \<open>node2\<close>.  The seeds are valid indices
  (lemma \<open>linear_pick_seeds_range\<close>), so \<open>entries ! seed\<close> is defined.
\<close>

definition split_entries ::
  "(MBR \<times> 'x) list \<Rightarrow> error + (MBR \<times> 'x) list \<times> (MBR \<times> 'x) list" where
  "split_entries entries =
     (case linear_pick_seeds entries of
        Inl e \<Rightarrow> Inl e
      | Inr (seed1_idx, seed2_idx) \<Rightarrow>
          distribute (remaining seed1_idx seed2_idx entries)
            ([entries ! seed1_idx], [entries ! seed2_idx]))"

text \<open>The two new nodes, of the kind of the node that is split, with their final MBRs.\<close>

definition split_leaf :: "(MBR \<times> 'd Point) list \<Rightarrow> error + 'd RTreeNode \<times> 'd RTreeNode" where
  "split_leaf entries =
     (case split_entries entries of
        Inl e \<Rightarrow> Inl e
      | Inr (es1, es2) \<Rightarrow> Inr (Leaf (update_mbr es1) es1, Leaf (update_mbr es2) es2))"

definition split_inner ::
  "(MBR \<times> 'd RTreeNode) list \<Rightarrow> error + 'd RTreeNode \<times> 'd RTreeNode" where
  "split_inner entries =
     (case split_entries entries of
        Inl e \<Rightarrow> Inl e
      | Inr (es1, es2) \<Rightarrow> Inr (Inner (update_mbr es1) es1, Inner (update_mbr es2) es2))"

subsection \<open>\<open>insert\<close> and \<open>_handle_overflow\<close>\<close>

text \<open>
  What an insertion into a subtree hands to the parent of that subtree: the node itself,
  updated in place (\<open>NoSplit\<close>), or the two nodes that \<open>_split_node\<close> made of it (\<open>Split\<close>),
  for which \<open>_handle_overflow\<close> then rewrites the parent.
\<close>

datatype 'd ins_result = NoSplit "'d RTreeNode" | Split "'d RTreeNode" "'d RTreeNode"

lemma choose_step_bound:
  "(\<forall>j. fst st = Some j \<longrightarrow> j < i) \<Longrightarrow> fst (choose_step m i e st) = Some k \<Longrightarrow> k < Suc i"
  by (cases st) (auto simp: choose_step_def Let_def less_Suc_eq split: if_splits)

lemma choose_loop_bound:
  "choose_loop m i es st = (Some k, r) \<Longrightarrow> (\<forall>j. fst st = Some j \<longrightarrow> j < i) \<Longrightarrow> k < i + length es"
proof (induction es arbitrary: i st)
  case Nil
  then show ?case by (cases st) auto
next
  case (Cons e es)
  have run: "choose_loop m (Suc i) es (choose_step m i e st) = (Some k, r)"
    using Cons.prems(1) by simp
  have "\<forall>j. fst (choose_step m i e st) = Some j \<longrightarrow> j < Suc i"
    using choose_step_bound[OF Cons.prems(2)] by blast
  from Cons.IH[OF run this] show ?case by simp
qed

lemma choose_subtree_bound: "choose_subtree m es = Some i \<Longrightarrow> i < length es"
proof -
  assume a: "choose_subtree m es = Some i"
  obtain r where "choose_loop m 0 es (None, None, None) = (Some i, r)"
    using a by (cases "choose_loop m 0 es (None, None, None)") (auto simp: choose_subtree_def)
  from choose_loop_bound[OF this] show ?thesis by simp
qed

lemma size_child_entry:
  "i < length es \<Longrightarrow> size (snd (es ! i)) < Suc (size_list (size_prod (\<lambda>_. 0) size) es)"
proof (induction es arbitrary: i)
  case Nil
  then show ?case by simp
next
  case (Cons e es)
  show ?case
  proof (cases i)
    case 0
    then show ?thesis by (cases e) simp
  next
    case (Suc j)
    with Cons show ?thesis by fastforce
  qed
qed

text \<open>
  The entry at index \<open>i\<close> is dropped: the loop of \<open>_handle_overflow\<close> that keeps every
  entry of the parent whose child \<open>is not node\<close>.  In a tree a node is the child of one entry,
  the one the descent went through.
\<close>

definition drop_entry :: "nat \<Rightarrow> 'a list \<Rightarrow> 'a list" where
  "drop_entry i es = take i es @ drop (Suc i) es"

text \<open>
  \<open>_handle_overflow\<close> for a node that has a parent: the parent loses the entry of the old
  node, gets the entries \<open>(node1.mbr, node1)\<close> and \<open>(node2.mbr, node2)\<close> at its end, its MBR
  is recomputed from the MBRs stored in its entries, and it is split in turn when it
  overflows.  A half whose cached MBR is absent would be stored with \<open>None\<close> by the source
  and raise at the next use of that entry; the model raises at once.  The halves of a split
  always carry an MBR (lemma \<open>ins_inner_nonempty\<close>), so neither happens.
\<close>

definition handle_overflow_parent ::
  "int \<Rightarrow> (MBR \<times> 'd RTreeNode) list \<Rightarrow> nat \<Rightarrow> 'd RTreeNode \<Rightarrow> 'd RTreeNode
     \<Rightarrow> error + 'd ins_result" where
  "handle_overflow_parent M es i node1 node2 =
     (case (mbr node1, mbr node2) of
        (Some mbr1, Some mbr2) \<Rightarrow>
          (let es' = drop_entry i es @ [(mbr1, node1), (mbr2, node2)]
           in if int (length es') > M then
                (case split_inner es' of
                   Inl e \<Rightarrow> Inl e
                 | Inr (n1, n2) \<Rightarrow> Inr (Split n1 n2))
              else Inr (NoSplit (Inner (update_mbr es') es')))
      | _ \<Rightarrow> Inl AttributeError)"

text \<open>
  The descent of \<open>_choose_leaf\<close>, the append at the leaf, and the way back up of
  \<open>_handle_overflow\<close>.  Where the child comes back unsplit, the parent keeps its entry MBR
  and its cached MBR as they were: the source touches neither.
\<close>

function ins :: "int \<Rightarrow> 'd Point \<Rightarrow> 'd RTreeNode \<Rightarrow> error + 'd ins_result" where
  "ins M p (Leaf mb es) =
     (let es' = es @ [(from_point p, p)]
      in if int (length es') > M then
           (case split_leaf es' of
              Inl e \<Rightarrow> Inl e
            | Inr (n1, n2) \<Rightarrow> Inr (Split n1 n2))
         else Inr (NoSplit (Leaf (update_mbr es') es')))"
| "ins M p (Inner mb es) =
     (case choose_subtree (from_point p) es of
        None \<Rightarrow> Inl AttributeError
      | Some i \<Rightarrow>
          (case ins M p (snd (es ! i)) of
             Inl e \<Rightarrow> Inl e
           | Inr (NoSplit c) \<Rightarrow> Inr (NoSplit (Inner mb (es[i := (fst (es ! i), c)])))
           | Inr (Split node1 node2) \<Rightarrow> handle_overflow_parent M es i node1 node2))"
  by pat_completeness auto
termination
  by (relation "measure (\<lambda>(M, p, n). size n)")
     (auto dest!: choose_subtree_bound intro: size_child_entry)

declare ins.simps [simp del]

text \<open>
  \<open>_handle_overflow\<close> for the root: a new internal root over the two halves.  Its entry
  count is not tested against \<open>max_entries\<close>.
\<close>

definition new_root :: "'d RTreeNode \<Rightarrow> 'd RTreeNode \<Rightarrow> error + 'd RTreeNode" where
  "new_root node1 node2 =
     (case (mbr node1, mbr node2) of
        (Some mbr1, Some mbr2) \<Rightarrow>
          Inr (Inner (update_mbr [(mbr1, node1), (mbr2, node2)]) [(mbr1, node1), (mbr2, node2)])
      | _ \<Rightarrow> Inl AttributeError)"

text \<open>\<open>RTree.insert\<close>.\<close>

definition insert_point :: "'d RTree \<Rightarrow> 'd Point \<Rightarrow> error + 'd RTree" where
  "insert_point t p =
     (case ins (max_entries t) p (root_node t) of
        Inl e \<Rightarrow> Inl e
      | Inr (NoSplit r) \<Rightarrow> Inr (t\<lparr>root_node := r\<rparr>)
      | Inr (Split node1 node2) \<Rightarrow>
          (case new_root node1 node2 of
             Inl e \<Rightarrow> Inl e
           | Inr r \<Rightarrow> Inr (t\<lparr>root_node := r\<rparr>)))"

text \<open>The loop of \<open>main\<close> that inserts the loaded points one after the other.\<close>

fun insert_all :: "'d RTree \<Rightarrow> 'd Point list \<Rightarrow> error + 'd RTree" where
  "insert_all t [] = Inr t"
| "insert_all t (p # ps) =
     (case insert_point t p of Inl e \<Rightarrow> Inl e | Inr t' \<Rightarrow> insert_all t' ps)"


subsection \<open>\<open>search_square\<close>\<close>

text \<open>
  \<open>_search_square_recursive\<close>; the result is what the call appends to \<open>results\<close>.
\<close>

fun search_square_recursive ::
  "'d RTreeNode \<Rightarrow> real \<Rightarrow> real \<Rightarrow> real \<Rightarrow> real \<Rightarrow> 'd Point \<Rightarrow> ('d Point \<times> real) list" where
  "search_square_recursive (Leaf mb es) center_lat center_lon half_side_lat half_side_lon
       center_point =
     (case mb of
        None \<Rightarrow> []
      | Some m \<Rightarrow>
          if \<not> intersects_square m center_lat center_lon half_side_lat half_side_lon then []
          else
            (let square_min_lat = center_lat - half_side_lat;
                 square_max_lat = center_lat + half_side_lat;
                 square_min_lon = center_lon - half_side_lon;
                 square_max_lon = center_lon + half_side_lon
             in map (\<lambda>e. (snd e, distance_to center_point (snd e)))
                  (filter (\<lambda>e. (square_min_lat \<le> lat (snd e) \<and> lat (snd e) \<le> square_max_lat)
                              \<and> (square_min_lon \<le> lon (snd e) \<and> lon (snd e) \<le> square_max_lon))
                     es)))"
| "search_square_recursive (Inner mb es) center_lat center_lon half_side_lat half_side_lon
       center_point =
     (case mb of
        None \<Rightarrow> []
      | Some m \<Rightarrow>
          if \<not> intersects_square m center_lat center_lon half_side_lat half_side_lon then []
          else
            concat (map (\<lambda>e. search_square_recursive (snd e) center_lat center_lon
                                half_side_lat half_side_lon center_point) es))"

text \<open>
  \<open>RTree.search_square\<close>.  A float division by zero raises in Python;
  \<open>results.sort(key=...)\<close> is a stable sort, as \<open>sort_key\<close> is.
\<close>

definition search_square :: "'d RTree \<Rightarrow> 'd Point \<Rightarrow> real \<Rightarrow> error + ('d Point \<times> real) list" where
  "search_square t center radius_km =
     (if 111 * cos (radians (lat center)) = 0 then Inl ZeroDivisionError
      else
        (let half_side_lat = radius_km / 111;
             half_side_lon = radius_km / (111 * cos (radians (lat center)));
             candidates = search_square_recursive (root_node t) (lat center) (lon center)
                            half_side_lat half_side_lon center;
             results = filter (\<lambda>x. snd x \<le> radius_km) candidates
         in Inr (sort_key snd results)))"

subsection \<open>Diagnostics\<close>

text \<open>\<open>_count_recursive\<close>, as \<open>(leaf, internal, total_entries)\<close>.\<close>

fun count_recursive :: "'d RTreeNode \<Rightarrow> nat \<times> nat \<times> nat \<Rightarrow> nat \<times> nat \<times> nat" where
  "count_recursive (Leaf mb es) (l, i, t) = (l + 1, i, t + length es)"
| "count_recursive (Inner mb es) (l, i, t) =
     fold (\<lambda>e c. count_recursive (snd e) c) es (l, i + 1, t)"

definition count_nodes :: "'d RTree \<Rightarrow> nat \<times> nat \<times> nat" where
  "count_nodes t = count_recursive (root_node t) (0, 0, 0)"

definition total_entries :: "nat \<times> nat \<times> nat \<Rightarrow> nat" where
  "total_entries c = snd (snd c)"

text \<open>\<open>_get_height_recursive\<close>.\<close>

fun get_height_recursive :: "'d RTreeNode \<Rightarrow> nat" where
  "get_height_recursive (Leaf mb es) = 1"
| "get_height_recursive (Inner mb es) =
     (if es = [] then 1
      else 1 + foldl max 0 (map (\<lambda>e. get_height_recursive (snd e)) es))"

subsection \<open>The linear scan of linear\_search.py\<close>

text \<open>
  \<open>math.atan2\<close> on the reals, and \<open>distance_km\<close>, which computes the central angle with it
  where \<open>Point.distance_to\<close> uses \<open>asin\<close>.
\<close>

definition py_atan2 :: "real \<Rightarrow> real \<Rightarrow> real" where
  "py_atan2 y x =
     (if x > 0 then arctan (y / x)
      else if x < 0 \<and> y \<ge> 0 then arctan (y / x) + pi
      else if x < 0 then arctan (y / x) - pi
      else if y > 0 then pi / 2
      else if y < 0 then - (pi / 2)
      else 0)"

definition distance_km :: "real \<Rightarrow> real \<Rightarrow> real \<Rightarrow> real \<Rightarrow> real" where
  "distance_km lat1 lon1 lat2 lon2 =
     (let lat1_rad = radians lat1; lon1_rad = radians lon1;
          lat2_rad = radians lat2; lon2_rad = radians lon2;
          dlat = lat2_rad - lat1_rad; dlon = lon2_rad - lon1_rad;
          a = (sin (dlat / 2))\<^sup>2 + cos lat1_rad * cos lat2_rad * (sin (dlon / 2))\<^sup>2;
          c = 2 * py_atan2 (sqrt a) (sqrt (1 - a))
      in 6371 * c)"

text \<open>
  The loop of \<open>main\<close> over the stations, followed by the stable sort by distance; a station
  is the point it was loaded as.
\<close>

definition linear_search :: "'d Point list \<Rightarrow> real \<Rightarrow> real \<Rightarrow> real \<Rightarrow> ('d Point \<times> real) list" where
  "linear_search stations lat0 lon0 r =
     sort_key snd
       (filter (\<lambda>x. snd x \<le> r)
          (map (\<lambda>station. (station, distance_km lat0 lon0 (lat station) (lon station)))
             stations))"

subsection \<open>Notions used to state the properties\<close>

text \<open>The points stored in the leaves of a subtree, in the order of a depth-first walk.\<close>

fun points_of :: "'d RTreeNode \<Rightarrow> 'd Point list" where
  "points_of (Leaf mb es) = map snd es"
| "points_of (Inner mb es) = concat (map (\<lambda>e. points_of (snd e)) es)"

text \<open>Every node of a subtree, the root of the subtree first.\<close>

fun nodes :: "'d RTreeNode \<Rightarrow> 'd RTreeNode list" where
  "nodes (Leaf mb es) = [Leaf mb es]"
| "nodes (Inner mb es) = Inner mb es # concat (map (\<lambda>e. nodes (snd e)) es)"

text \<open>\<open>len(node.entries)\<close>.\<close>

fun num_entries :: "'d RTreeNode \<Rightarrow> nat" where
  "num_entries (Leaf mb es) = length es"
| "num_entries (Inner mb es) = length es"

text \<open>Every internal node of the subtree has an entry.\<close>

fun inner_nonempty :: "'d RTreeNode \<Rightarrow> bool" where
  "inner_nonempty (Leaf mb es) = True"
| "inner_nonempty (Inner mb es) = (es \<noteq> [] \<and> list_all (\<lambda>e. inner_nonempty (snd e)) es)"

text \<open>The depth of every leaf below a node, the node itself being at depth 0.\<close>

fun leaf_depths :: "'d RTreeNode \<Rightarrow> nat list" where
  "leaf_depths (Leaf mb es) = [0]"
| "leaf_depths (Inner mb es) = concat (map (\<lambda>e. map Suc (leaf_depths (snd e))) es)"

text \<open>The cached MBR of a node is present and contains the point.\<close>

definition mbr_contains :: "'d RTreeNode \<Rightarrow> 'd Point \<Rightarrow> bool" where
  "mbr_contains n p = (case mbr n of None \<Rightarrow> False | Some m \<Rightarrow> contains_point m p)"

text \<open>
  The cached MBR of every node of the subtree contains every point stored below that node.
\<close>

definition covered :: "'d RTreeNode \<Rightarrow> bool" where
  "covered t = list_all (\<lambda>n. list_all (mbr_contains n) (points_of n)) (nodes t)"

text \<open>
  The candidate rectangle of \<open>search_square\<close> for a centre and a radius: the test that
  \<open>_search_square_recursive\<close> applies to a point at a leaf.
\<close>

definition in_rect :: "real \<Rightarrow> real \<Rightarrow> real \<Rightarrow> real \<Rightarrow> 'd Point \<Rightarrow> bool" where
  "in_rect center_lat center_lon half_side_lat half_side_lon p =
     ((center_lat - half_side_lat \<le> lat p \<and> lat p \<le> center_lat + half_side_lat)
      \<and> (center_lon - half_side_lon \<le> lon p \<and> lon p \<le> center_lon + half_side_lon))"

definition in_square :: "'d Point \<Rightarrow> real \<Rightarrow> 'd Point \<Rightarrow> bool" where
  "in_square center radius_km p =
     in_rect (lat center) (lon center) (radius_km / 111)
       (radius_km / (111 * cos (radians (lat center)))) p"

text \<open>
  The brute-force scan in the words of the specification: the haversine distance to every
  point, those within the radius kept, stably sorted by distance.
\<close>

definition brute_force :: "'d Point list \<Rightarrow> 'd Point \<Rightarrow> real \<Rightarrow> ('d Point \<times> real) list" where
  "brute_force ps center radius_km =
     sort_key snd
       (filter (\<lambda>x. snd x \<le> radius_km) (map (\<lambda>p. (p, distance_to center p)) ps))"

text \<open>
  Seed picking in the words of the specification, for one axis with sides \<open>lo\<close> and \<open>hi\<close>:
  the highest low side, the lowest high side, the overall width and the normalised
  separation.
\<close>

definition highest_low :: "(MBR \<Rightarrow> real) \<Rightarrow> (MBR \<times> 'x) list \<Rightarrow> real" where
  "highest_low lo es = Max ((\<lambda>e. lo (fst e)) ` set es)"

definition lowest_high :: "(MBR \<Rightarrow> real) \<Rightarrow> (MBR \<times> 'x) list \<Rightarrow> real" where
  "lowest_high hi es = Min ((\<lambda>e. hi (fst e)) ` set es)"

definition axis_width :: "(MBR \<Rightarrow> real) \<Rightarrow> (MBR \<Rightarrow> real) \<Rightarrow> (MBR \<times> 'x) list \<Rightarrow> real" where
  "axis_width lo hi es = Max ((\<lambda>e. hi (fst e)) ` set es) - Min ((\<lambda>e. lo (fst e)) ` set es)"

definition separation :: "(MBR \<Rightarrow> real) \<Rightarrow> (MBR \<Rightarrow> real) \<Rightarrow> (MBR \<times> 'x) list \<Rightarrow> real" where
  "separation lo hi es = (highest_low lo es - lowest_high hi es) / axis_width lo hi es"

text \<open>\<open>i\<close> is the last index of \<open>xs\<close> whose element satisfies \<open>P\<close>.\<close>

definition last_index :: "('a \<Rightarrow> bool) \<Rightarrow> 'a list \<Rightarrow> nat \<Rightarrow> bool" where
  "last_index P xs i \<longleftrightarrow>
     i < length xs \<and> P (xs ! i) \<and> (\<forall>j. i < j \<and> j < length xs \<longrightarrow> \<not> P (xs ! j))"

text \<open>
  The seeds that an axis determines: the last entry that reaches the highest low side, and
  the last entry that reaches the lowest high side, replaced by the next index (cyclically)
  when it is the same entry.
\<close>

definition seeds_on ::
  "(MBR \<Rightarrow> real) \<Rightarrow> (MBR \<Rightarrow> real) \<Rightarrow> (MBR \<times> 'x) list \<Rightarrow> nat \<Rightarrow> nat \<Rightarrow> bool" where
  "seeds_on lo hi es s1 s2 \<longleftrightarrow>
     last_index (\<lambda>e. lo (fst e) = highest_low lo es) es s1
     \<and> (\<exists>c. last_index (\<lambda>e. hi (fst e) = lowest_high hi es) es c
            \<and> s2 = (if c = s1 then (s1 + 1) mod length es else c))"

text \<open>
  The area enlargement an entry MBR needs to cover \<open>m\<close>, and the order of \<open>_choose_leaf\<close>
  on entry MBRs: smaller enlargement first, smaller area among equal enlargements.
\<close>

definition enlargement :: "MBR \<Rightarrow> MBR \<Rightarrow> real" where
  "enlargement entry_mbr m = area (expand_to_include_mbr entry_mbr m) - area entry_mbr"

definition lex_le :: "MBR \<Rightarrow> MBR \<Rightarrow> MBR \<Rightarrow> bool" where
  "lex_le m x y \<longleftrightarrow>
     enlargement x m < enlargement y m \<or> (enlargement x m = enlargement y m \<and> area x \<le> area y)"

definition lex_less :: "MBR \<Rightarrow> MBR \<Rightarrow> MBR \<Rightarrow> bool" where
  "lex_less m x y \<longleftrightarrow>
     enlargement x m < enlargement y m \<or> (enlargement x m = enlargement y m \<and> area x < area y)"

text \<open>
  The invariant of the loop of \<open>_choose_leaf\<close> after the entries \<open>xs\<close>: nothing chosen and
  nothing seen, or the first entry that is least in that order.
\<close>

definition choose_inv ::
  "MBR \<Rightarrow> (MBR \<times> 'x) list \<Rightarrow> nat option \<times> real option \<times> real option \<Rightarrow> bool" where
  "choose_inv m xs st =
     (case st of (best_entry, min_enlargement, min_area) \<Rightarrow>
        (case best_entry of
           None \<Rightarrow> xs = [] \<and> min_enlargement = None \<and> min_area = None
         | Some k \<Rightarrow>
             k < length xs
             \<and> min_enlargement = Some (enlargement (fst (xs ! k)) m)
             \<and> min_area = Some (area (fst (xs ! k)))
             \<and> list_all (\<lambda>e. lex_le m (fst (xs ! k)) (fst e)) xs
             \<and> list_all (\<lambda>e. lex_less m (fst (xs ! k)) (fst e)) (take k xs)))"

text \<open>The nodes that an insertion into a subtree hands to the parent.\<close>

definition res_nodes :: "'d ins_result \<Rightarrow> 'd RTreeNode list" where
  "res_nodes r = (case r of NoSplit t \<Rightarrow> [t] | Split a b \<Rightarrow> [a, b])"

text \<open>The halves of a split carry a cached MBR.\<close>

definition split_mbrs :: "'d ins_result \<Rightarrow> bool" where
  "split_mbrs r = (case r of NoSplit t \<Rightarrow> True | Split a b \<Rightarrow> mbr a \<noteq> None \<and> mbr b \<noteq> None)"

text \<open>No node of the subtree has more than \<open>M\<close> entries.\<close>

definition bounded :: "int \<Rightarrow> 'd RTreeNode \<Rightarrow> bool" where
  "bounded M t = list_all (\<lambda>n. int (num_entries n) \<le> M) (nodes t)"

text \<open>Every leaf of the subtree lies at depth \<open>h\<close> below its root.\<close>

definition balanced :: "nat \<Rightarrow> 'd RTreeNode \<Rightarrow> bool" where
  "balanced h t = list_all (\<lambda>d. d = h) (leaf_depths t)"

text \<open>The same, by recursion over the levels: the form that an insertion preserves.\<close>

fun height_is :: "nat \<Rightarrow> 'd RTreeNode \<Rightarrow> bool" where
  "height_is h (Leaf mb es) = (h = 0)"
| "height_is h (Inner mb es) =
     (case h of 0 \<Rightarrow> False | Suc k \<Rightarrow> list_all (\<lambda>e. height_is k (snd e)) es)"

text \<open>A point with a number as its payload, for the worked examples.\<close>

definition station :: "real \<Rightarrow> real \<Rightarrow> nat \<Rightarrow> nat Point" where
  "station a b d = \<lparr>lat = a, lon = b, data = d\<rparr>"

text \<open>The tree that the insertions of the worked example build.\<close>

definition example_tree :: "nat RTree" where
  "example_tree =
     \<lparr>max_entries = 2, min_entries = 2,
          root_node =
            Inner (Some \<lparr>min_lat = 0, max_lat = 0, min_lon = 0, max_lon = 2\<rparr>)
             [(\<lparr>min_lat = 0, max_lat = 0, min_lon = 1, max_lon = 2\<rparr>,
               Leaf (Some \<lparr>min_lat = 0, max_lat = 0, min_lon = 1, max_lon = 2\<rparr>)
                [(\<lparr>min_lat = 0, max_lat = 0, min_lon = 2, max_lon = 2\<rparr>, station 0 2 3),
                 (\<lparr>min_lat = 0, max_lat = 0, min_lon = 1, max_lon = 1\<rparr>, station 0 1 2)]),
              (\<lparr>min_lat = 0, max_lat = 0, min_lon = 0, max_lon = 0\<rparr>,
               Leaf (Some \<lparr>min_lat = 0, max_lat = 0, min_lon = 0, max_lon = 0\<rparr>)
                [(\<lparr>min_lat = 0, max_lat = 0, min_lon = 0, max_lon = 0\<rparr>, station 0 0 1)])]\<rparr>"

text \<open>The trees that three further insertion sequences build.\<close>

definition stale_tree :: "nat RTree" where
  "stale_tree =
     \<lparr>max_entries = 2, min_entries = 2,
        root_node =
          Inner (Some \<lparr>min_lat = 0, max_lat = 2, min_lon = 0, max_lon = 0\<rparr>)
           [(\<lparr>min_lat = 1, max_lat = 2, min_lon = 0, max_lon = 0\<rparr>,
             Leaf (Some \<lparr>min_lat = 1, max_lat = 2, min_lon = 0, max_lon = 0\<rparr>)
              [(\<lparr>min_lat = 2, max_lat = 2, min_lon = 0, max_lon = 0\<rparr>, station 2 0 3),
               (\<lparr>min_lat = 1, max_lat = 1, min_lon = 0, max_lon = 0\<rparr>, station 1 0 2)]),
            (\<lparr>min_lat = 0, max_lat = 0, min_lon = 0, max_lon = 0\<rparr>,
             Leaf (Some \<lparr>min_lat = 0, max_lat = 0, min_lon = 0, max_lon = 5\<rparr>)
              [(\<lparr>min_lat = 0, max_lat = 0, min_lon = 0, max_lon = 0\<rparr>, station 0 0 1),
               (\<lparr>min_lat = 0, max_lat = 0, min_lon = 5, max_lon = 5\<rparr>, station 0 5 4)])]\<rparr>"

definition tie_tree :: "nat RTree" where
  "tie_tree =
     \<lparr>max_entries = 2, min_entries = 2,
        root_node =
          Inner (Some \<lparr>min_lat = 0, max_lat = 0, min_lon = - 1, max_lon = 5\<rparr>)
           [(\<lparr>min_lat = 0, max_lat = 0, min_lon = 1, max_lon = 5\<rparr>,
             Leaf (Some \<lparr>min_lat = 0, max_lat = 0, min_lon = 1, max_lon = 5\<rparr>)
              [(\<lparr>min_lat = 0, max_lat = 0, min_lon = 5, max_lon = 5\<rparr>, station 0 5 3),
               (\<lparr>min_lat = 0, max_lat = 0, min_lon = 1, max_lon = 1\<rparr>, station 0 1 2)]),
            (\<lparr>min_lat = 0, max_lat = 0, min_lon = - 1, max_lon = - 1\<rparr>,
             Leaf (Some \<lparr>min_lat = 0, max_lat = 0, min_lon = - 1, max_lon = - 1\<rparr>)
              [(\<lparr>min_lat = 0, max_lat = 0, min_lon = - 1, max_lon = - 1\<rparr>, station 0 (- 1) 1)])]\<rparr>"

definition antimeridian_tree :: "nat RTree" where
  "antimeridian_tree =
     \<lparr>max_entries = 5, min_entries = 2,
        root_node =
          Leaf (Some \<lparr>min_lat = 0, max_lat = 0, min_lon = - 179, max_lon = - 179\<rparr>)
            [(\<lparr>min_lat = 0, max_lat = 0, min_lon = - 179, max_lon = - 179\<rparr>, station 0 (- 179) 1)]\<rparr>"

section \<open>Properties\<close>

subsection \<open>Seeds and split\<close>

lemma update_mbr_Some: "es \<noteq> [] \<Longrightarrow> \<exists>m. update_mbr es = Some m"
  by (cases es) auto

lemma distribute_ok:
  "es1 \<noteq> [] \<Longrightarrow> es2 \<noteq> [] \<Longrightarrow>
   \<exists>a b. distribute rest (es1, es2) = Inr (a, b) \<and> a \<noteq> [] \<and> b \<noteq> []
     \<and> mset a + mset b = mset es1 + mset es2 + mset rest"
proof (induction rest arbitrary: es1 es2)
  case Nil
  then show ?case by simp
next
  case (Cons entry rest)
  obtain m1 m2 where m: "update_mbr es1 = Some m1" "update_mbr es2 = Some m2"
    using Cons.prems update_mbr_Some by blast
  have a: "es1 @ [entry] \<noteq> []" and b: "es2 @ [entry] \<noteq> []" by simp_all
  from Cons.IH[OF a Cons.prems(2)] Cons.IH[OF Cons.prems(1) b]
  show ?case
    by (simp add: m Let_def)
qed

lemma seed_loop_range:
  "seed_loop lo hi a b i es (s1, s2) = (r1, r2) \<Longrightarrow> s1 < i + length es \<Longrightarrow> s2 < i + length es
   \<Longrightarrow> r1 < i + length es \<and> r2 < i + length es"
proof (induction es arbitrary: i s1 s2)
  case Nil
  then show ?case by simp
next
  case (Cons e es)
  let ?t1 = "if lo (fst e) = a then i else s1" and ?t2 = "if hi (fst e) = b then i else s2"
  have run: "seed_loop lo hi a b (Suc i) es (?t1, ?t2) = (r1, r2)"
    using Cons.prems(1) by simp
  have "?t1 < Suc i + length es" "?t2 < Suc i + length es"
    using Cons.prems(2,3) by auto
  from Cons.IH[OF run this] show ?case by simp
qed

lemma dim_step_range:
  assumes "dim_step lo hi es (ms, s1, s2) = (ms', r1, r2)" "s1 < length es" "s2 < length es"
  shows "r1 < length es \<and> r2 < length es"
  using assms seed_loop_range[of lo hi _ _ 0 es s1 s2]
  by (auto simp: dim_step_def Let_def split: if_splits prod.splits option.splits)

lemma linear_pick_seeds_range:
  assumes "es \<noteq> []"
  shows "\<exists>s1 s2. linear_pick_seeds es = Inr (s1, s2) \<and> s1 < length es \<and> s2 < length es
           \<and> (length es > 1 \<longrightarrow> s1 \<noteq> s2)"
proof -
  define s0 :: nat where "s0 = (if length es > 1 then 1 else 0)"
  have s0: "s0 < length es" using assms by (auto simp: s0_def)
  obtain a b c where st1: "dim_step min_lat max_lat es (None, 0, s0) = (a, b, c)"
    by (cases "dim_step min_lat max_lat es (None, 0, s0)") auto
  have r1: "b < length es \<and> c < length es"
    using dim_step_range[OF st1] assms s0 by auto
  obtain a' b' c' where st2: "dim_step min_lon max_lon es (a, b, c) = (a', b', c')"
    by (cases "dim_step min_lon max_lon es (a, b, c)") auto
  have r2: "b' < length es \<and> c' < length es"
    using dim_step_range[OF st2] r1 by auto
  have m: "length es > 1 \<Longrightarrow> (b' + 1) mod length es \<noteq> b'"
    using r2 by (cases "Suc b' = length es") auto
  have eq: "linear_pick_seeds es =
     Inr (b', if b' = c' \<and> length es > 1 then (b' + 1) mod length es else c')"
    unfolding linear_pick_seeds_def s0_def[symmetric] st1 st2 using assms by simp
  have m2: "(b' + 1) mod length es < length es"
    using assms by simp
  show ?thesis
    unfolding eq using r2 m m2 by auto
qed

lemma remaining_mset_aux:
  "mset (map snd (filter (\<lambda>(i, e). i \<noteq> a \<and> i \<noteq> b) (enumerate k es)))
     + (if k \<le> a \<and> a < k + length es then {#es ! (a - k)#} else {#})
     + (if b \<noteq> a \<and> k \<le> b \<and> b < k + length es then {#es ! (b - k)#} else {#})
   = mset es"
proof (induction es arbitrary: k)
  case Nil
  then show ?case by simp
next
  case (Cons e es)
  have *: "\<And>j. Suc k \<le> j \<Longrightarrow> (e # es) ! (j - k) = es ! (j - Suc k)"
    by (simp add: Suc_diff_le)
  show ?case
    using Cons.IH[of "Suc k"] by (auto simp: * not_less_eq_eq add_mset_commute)
qed

lemma remaining_mset:
  assumes "a < length es" "b < length es" "a \<noteq> b"
  shows "mset (remaining a b es) + {#es ! a, es ! b#} = mset es"
  using remaining_mset_aux[of a b 0 es] assms by (simp add: remaining_def add_mset_commute)

lemma remaining_subset: "set (remaining a b es) \<subseteq> set es"
  by (auto simp: remaining_def in_set_enumerate_eq)

lemma split_entries_total:
  assumes "es \<noteq> []"
  shows "\<exists>a b. split_entries es = Inr (a, b) \<and> a \<noteq> [] \<and> b \<noteq> []
            \<and> (length es > 1 \<longrightarrow> mset a + mset b = mset es)
            \<and> set a \<union> set b \<subseteq> set es"
proof -
  obtain s1 s2 where seeds: "linear_pick_seeds es = Inr (s1, s2)" "s1 < length es"
      "s2 < length es" "length es > 1 \<longrightarrow> s1 \<noteq> s2"
    using linear_pick_seeds_range[OF assms] by blast
  obtain a b where d: "distribute (remaining s1 s2 es) ([es ! s1], [es ! s2]) = Inr (a, b)"
      "a \<noteq> []" "b \<noteq> []"
      "mset a + mset b = mset [es ! s1] + mset [es ! s2] + mset (remaining s1 s2 es)"
    using distribute_ok[of "[es ! s1]" "[es ! s2]" "remaining s1 s2 es"] by auto
  have sp: "split_entries es = Inr (a, b)"
    by (simp add: split_entries_def seeds d)
  have m: "length es > 1 \<longrightarrow> mset a + mset b = mset es"
    using remaining_mset[of s1 es s2] seeds d(4) by (auto simp: add_mset_commute)
  have "set_mset (mset a + mset b) \<subseteq> set es"
    unfolding d(4) using remaining_subset[of s1 s2 es] seeds(2,3) by auto
  then have "set a \<union> set b \<subseteq> set es" by simp
  with sp d m show ?thesis by blast
qed

subsection \<open>The descent and the shape of an insertion\<close>

lemma split_leaf_total:
  assumes "es \<noteq> []"
  shows "\<exists>a b. split_leaf es = Inr (Leaf (update_mbr a) a, Leaf (update_mbr b) b)
            \<and> split_entries es = Inr (a, b)"
  using split_entries_total[OF assms] by (auto simp: split_leaf_def)

lemma ins_leaf_cases:
  obtains (fits) "int (length es) + 1 \<le> M"
      "ins M p (Leaf mb es) =
         Inr (NoSplit (Leaf (update_mbr (es @ [(from_point p, p)])) (es @ [(from_point p, p)])))"
  | (overflow) a b where "int (length es) + 1 > M"
      "split_entries (es @ [(from_point p, p)]) = Inr (a, b)"
      "ins M p (Leaf mb es) = Inr (Split (Leaf (update_mbr a) a) (Leaf (update_mbr b) b))"
proof (cases "int (length es) + 1 \<le> M")
  case True
  then show ?thesis using fits by (simp add: Let_def ins.simps)
next
  case False
  obtain a b where "split_entries (es @ [(from_point p, p)]) = Inr (a, b)"
    using split_entries_total[of "es @ [(from_point p, p)]"] by auto
  then show ?thesis using overflow[of a b] False by (simp add: Let_def split_leaf_def ins.simps)
qed

lemma handle_overflow_parent_cases:
  assumes "mbr n1 = Some m1" "mbr n2 = Some m2"
  obtains (fits) "int (length (drop_entry i es)) + 2 \<le> M"
      "handle_overflow_parent M es i n1 n2 =
         Inr (NoSplit (Inner (update_mbr (drop_entry i es @ [(m1, n1), (m2, n2)]))
                             (drop_entry i es @ [(m1, n1), (m2, n2)])))"
  | (overflow) a b where "int (length (drop_entry i es)) + 2 > M"
      "split_entries (drop_entry i es @ [(m1, n1), (m2, n2)]) = Inr (a, b)"
      "handle_overflow_parent M es i n1 n2
         = Inr (Split (Inner (update_mbr a) a) (Inner (update_mbr b) b))"
proof (cases "int (length (drop_entry i es)) + 2 \<le> M")
  case True
  then show ?thesis using fits assms by (simp add: handle_overflow_parent_def Let_def)
next
  case False
  obtain a b where "split_entries (drop_entry i es @ [(m1, n1), (m2, n2)]) = Inr (a, b)"
    using split_entries_total[of "drop_entry i es @ [(m1, n1), (m2, n2)]"] by auto
  then show ?thesis using overflow[of a b] False assms
    by (simp add: handle_overflow_parent_def Let_def split_inner_def)
qed



lemma lex_trans1: "lex_less m x y \<Longrightarrow> lex_le m y z \<Longrightarrow> lex_less m x z"
  by (auto simp: lex_le_def lex_less_def)

lemma lex_less_le: "lex_less m x y \<Longrightarrow> lex_le m x y"
  by (auto simp: lex_le_def lex_less_def)

lemma choose_step_Some:
  "choose_step m i e (Some k, Some en, Some ar) =
     (if enlargement (fst e) m < en \<or> (enlargement (fst e) m = en \<and> area (fst e) < ar)
      then (Some i, Some (enlargement (fst e) m), Some (area (fst e)))
      else (Some k, Some en, Some ar))"
  by (simp add: choose_step_def Let_def lt_inf_def eq_inf_def enlargement_def)

lemma choose_step_None:
  "choose_step m i e (None, None, None) = (Some i, Some (enlargement (fst e) m), Some (area (fst e)))"
  by (simp add: choose_step_def Let_def lt_inf_def eq_inf_def enlargement_def)

lemma choose_inv_step:
  assumes "choose_inv m pre st"
  shows "choose_inv m (pre @ [e]) (choose_step m (length pre) e st)"
proof -
  obtain b me ma where st: "st = (b, me, ma)" by (cases st)
  show ?thesis
  proof (cases b)
    case None
    with assms st have "st = (None, None, None)" "pre = []"
      by (auto simp: choose_inv_def)
    then show ?thesis
      by (simp add: choose_step_None choose_inv_def lex_le_def)
  next
    case (Some k)
    with assms st have k: "k < length pre" "me = Some (enlargement (fst (pre ! k)) m)"
        "ma = Some (area (fst (pre ! k)))"
        "list_all (\<lambda>x. lex_le m (fst (pre ! k)) (fst x)) pre"
        "list_all (\<lambda>x. lex_less m (fst (pre ! k)) (fst x)) (take k pre)"
      by (auto simp: choose_inv_def)
    have step: "choose_step m (length pre) e st =
        (if lex_less m (fst e) (fst (pre ! k))
         then (Some (length pre), Some (enlargement (fst e) m), Some (area (fst e)))
         else st)"
      unfolding st Some k(2,3) choose_step_Some lex_less_def by simp
    show ?thesis
    proof (cases "lex_less m (fst e) (fst (pre ! k))")
      case True
      have a: "list_all (\<lambda>x. lex_less m (fst e) (fst x)) pre"
        using k(4) lex_trans1[OF True] by (auto simp: list_all_iff)
      then have b: "list_all (\<lambda>x. lex_le m (fst e) (fst x)) pre"
        using lex_less_le by (auto simp: list_all_iff)
      have c: "lex_le m (fst e) (fst e)" by (simp add: lex_le_def)
      show ?thesis
        unfolding step using True a b c by (simp add: choose_inv_def)
    next
      case False
      then have "lex_le m (fst (pre ! k)) (fst e)"
        by (auto simp: lex_le_def lex_less_def)
      then show ?thesis
        unfolding step using False k
        by (simp add: choose_inv_def st Some nth_append)
    qed
  qed
qed

lemma choose_loop_inv:
  "choose_inv m pre st \<Longrightarrow> choose_inv m (pre @ es) (choose_loop m (length pre) es st)"
proof (induction es arbitrary: pre st)
  case Nil
  then show ?case by simp
next
  case (Cons e es)
  have "choose_inv m ((pre @ [e]) @ es)
          (choose_loop m (length (pre @ [e])) es (choose_step m (length pre) e st))"
    by (rule Cons.IH) (rule choose_inv_step[OF Cons.prems])
  then show ?case by simp
qed

lemma choose_subtree_inv:
  "choose_inv m es (choose_loop m 0 es (None, None, None))"
  using choose_loop_inv[of m "[]" "(None, None, None)" es] by (simp add: choose_inv_def)

lemma choose_subtree_Some:
  assumes "es \<noteq> []"
  shows "\<exists>i. choose_subtree m es = Some i"
proof -
  obtain b me ma where r: "choose_loop m 0 es (None, None, None) = (b, me, ma)"
    by (cases "choose_loop m 0 es (None, None, None)")
  with choose_subtree_inv[of m es] assms show ?thesis
    by (cases b) (auto simp: choose_inv_def choose_subtree_def)
qed



lemma split_entries_props:
  assumes "split_entries es = Inr (a, b)" "es \<noteq> []"
  shows "a \<noteq> []" "b \<noteq> []" "set a \<subseteq> set es" "set b \<subseteq> set es"
    "length es > 1 \<Longrightarrow> mset a + mset b = mset es"
  using split_entries_total[OF assms(2)] assms(1) by auto

lemma length_drop_entry: "i < length es \<Longrightarrow> length (drop_entry i es) = length es - 1"
  by (auto simp: drop_entry_def)

lemma set_drop_entry: "set (drop_entry i es) \<subseteq> set es"
  by (auto simp: drop_entry_def dest: in_set_takeD in_set_dropD)

lemma mset_drop_entry: "i < length es \<Longrightarrow> add_mset (es ! i) (mset (drop_entry i es)) = mset es"
  unfolding drop_entry_def
  by (metis append_take_drop_id id_take_nth_drop mset.simps(2) mset_append union_mset_add_mset_right)

lemma inner_nonempty_child:
  "inner_nonempty (Inner mb es) \<Longrightarrow> e \<in> set es \<Longrightarrow> inner_nonempty (snd e)"
  by (auto simp: list_all_iff)

lemma ins_rule [consumes 1, case_names leaf_fits leaf_overflow inner_nosplit inner_fits inner_overflow]:
  assumes wf: "inner_nonempty t"
    and leaf_fits: "\<And>mb es es'. es' = es @ [(from_point p, p)] \<Longrightarrow> int (length es') \<le> M \<Longrightarrow>
          P (Leaf mb es) (NoSplit (Leaf (update_mbr es') es'))"
    and leaf_overflow: "\<And>mb es es' a b. es' = es @ [(from_point p, p)] \<Longrightarrow> int (length es') > M \<Longrightarrow>
          split_entries es' = Inr (a, b) \<Longrightarrow>
          P (Leaf mb es) (Split (Leaf (update_mbr a) a) (Leaf (update_mbr b) b))"
    and inner_nosplit: "\<And>mb es i c. i < length es \<Longrightarrow> choose_subtree (from_point p) es = Some i \<Longrightarrow>
          inner_nonempty (Inner mb es) \<Longrightarrow>
          ins M p (snd (es ! i)) = Inr (NoSplit c) \<Longrightarrow> P (snd (es ! i)) (NoSplit c) \<Longrightarrow>
          P (Inner mb es) (NoSplit (Inner mb (es[i := (fst (es ! i), c)])))"
    and inner_fits: "\<And>mb es i n1 n2 m1 m2 es'. i < length es \<Longrightarrow>
          choose_subtree (from_point p) es = Some i \<Longrightarrow>
          inner_nonempty (Inner mb es) \<Longrightarrow>
          ins M p (snd (es ! i)) = Inr (Split n1 n2) \<Longrightarrow> P (snd (es ! i)) (Split n1 n2) \<Longrightarrow>
          mbr n1 = Some m1 \<Longrightarrow> mbr n2 = Some m2 \<Longrightarrow>
          es' = drop_entry i es @ [(m1, n1), (m2, n2)] \<Longrightarrow> int (length es') \<le> M \<Longrightarrow>
          P (Inner mb es) (NoSplit (Inner (update_mbr es') es'))"
    and inner_overflow: "\<And>mb es i n1 n2 m1 m2 es' a b. i < length es \<Longrightarrow>
          choose_subtree (from_point p) es = Some i \<Longrightarrow>
          inner_nonempty (Inner mb es) \<Longrightarrow>
          ins M p (snd (es ! i)) = Inr (Split n1 n2) \<Longrightarrow> P (snd (es ! i)) (Split n1 n2) \<Longrightarrow>
          mbr n1 = Some m1 \<Longrightarrow> mbr n2 = Some m2 \<Longrightarrow>
          es' = drop_entry i es @ [(m1, n1), (m2, n2)] \<Longrightarrow> int (length es') > M \<Longrightarrow>
          split_entries es' = Inr (a, b) \<Longrightarrow>
          P (Inner mb es) (Split (Inner (update_mbr a) a) (Inner (update_mbr b) b))"
  shows "\<exists>r. ins M p t = Inr r \<and> P t r"
proof -
  have "inner_nonempty t \<Longrightarrow>
        \<exists>r. ins M p t = Inr r \<and> P t r \<and> split_mbrs r"
  proof (induction t)
    case (Leaf mb es)
    show ?case
    proof (cases rule: ins_leaf_cases[of es M p mb])
      case fits
      then show ?thesis
        using leaf_fits[of "es @ [(from_point p, p)]" es mb]
          update_mbr_Some[of "es @ [(from_point p, p)]"]
        by (auto simp: split_mbrs_def)
    next
      case (overflow a b)
      then show ?thesis
        using leaf_overflow[of "es @ [(from_point p, p)]" es a b mb]
          split_entries_props(1,2)[OF overflow(2)] update_mbr_Some[of a] update_mbr_Some[of b]
        by (auto simp: split_mbrs_def)
    qed
  next
    case (Inner mb es)
    from Inner.prems have ne: "es \<noteq> []" by simp
    then obtain i where i: "choose_subtree (from_point p) es = Some i"
      using choose_subtree_Some by blast
    then have il: "i < length es" by (rule choose_subtree_bound)
    then have mem: "es ! i \<in> set es" by simp
    have "inner_nonempty (snd (es ! i))"
      using inner_nonempty_child[OF Inner.prems mem] .
    moreover have "snd (es ! i) \<in> Basic_BNFs.snds (es ! i)"
      by (cases "es ! i") simp
    ultimately obtain r where r: "ins M p (snd (es ! i)) = Inr r" "P (snd (es ! i)) r"
        "split_mbrs r"
      using Inner.IH[OF mem] by blast
    show ?case
    proof (cases r)
      case (NoSplit c)
      then show ?thesis
        using inner_nosplit[OF il i Inner.prems] r by (simp add: i split_mbrs_def ins.simps)
    next
      case (Split n1 n2)
      with r(3) obtain m1 m2 where m: "mbr n1 = Some m1" "mbr n2 = Some m2"
        by (auto simp: split_mbrs_def)
      let ?es' = "drop_entry i es @ [(m1, n1), (m2, n2)]"
      have len: "length ?es' = length (drop_entry i es) + 2" by simp
      from m show ?thesis
      proof (cases rule: handle_overflow_parent_cases[where i = i and es = es and M = M])
        case fits
        then show ?thesis
          using inner_fits[OF il i Inner.prems _ _ m, of ?es'] r Split
          by (simp add: i split_mbrs_def ins.simps)
      next
        case (overflow a b)
        have "a \<noteq> []" "b \<noteq> []"
          using split_entries_props(1,2)[OF overflow(2)] by simp_all
        then show ?thesis
          using inner_overflow[OF il i Inner.prems _ _ m, of ?es' a b] r Split overflow
            update_mbr_Some[of a] update_mbr_Some[of b]
          by (auto simp: i split_mbrs_def ins.simps)
      qed
    qed
  qed
  with wf show ?thesis by blast
qed


subsection \<open>Insertion never fails\<close>

lemma ins_inner_nonempty:
  assumes "inner_nonempty t"
  shows "\<exists>r. ins M p t = Inr r \<and> list_all inner_nonempty (res_nodes r) \<and> split_mbrs r"
  using assms
proof (induction rule: ins_rule[where M = M and p = p])
  case (leaf_fits mb es es')
  then show ?case by (simp add: res_nodes_def split_mbrs_def)
next
  case (leaf_overflow mb es es' a b)
  then show ?case
    using split_entries_props(1,2)[OF leaf_overflow(3)] update_mbr_Some[of a] update_mbr_Some[of b]
    by (auto simp: res_nodes_def split_mbrs_def)
next
  case (inner_nosplit mb es i c)
  then have "list_all (\<lambda>e. inner_nonempty (snd e)) (es[i := (fst (es ! i), c)])"
    by (auto simp: list_all_iff res_nodes_def dest!: set_update_subset_insert[THEN subsetD])
  with inner_nosplit show ?case
    by (simp add: res_nodes_def split_mbrs_def)
next
  case (inner_fits mb es i n1 n2 m1 m2 es')
  have "list_all (\<lambda>e. inner_nonempty (snd e)) (drop_entry i es)"
    using inner_fits(3) set_drop_entry[of i es] by (auto simp: list_all_iff)
  with inner_fits show ?case
    by (simp add: res_nodes_def split_mbrs_def)
next
  case (inner_overflow mb es i n1 n2 m1 m2 es' a b)
  have "list_all (\<lambda>e. inner_nonempty (snd e)) (drop_entry i es)"
    using inner_overflow(3) set_drop_entry[of i es] by (auto simp: list_all_iff)
  with inner_overflow have all: "list_all (\<lambda>e. inner_nonempty (snd e)) es'"
    by (simp add: res_nodes_def)
  have ne: "es' \<noteq> []" using inner_overflow(8) by simp
  note sp = split_entries_props[OF inner_overflow(10) ne]
  have "list_all (\<lambda>e. inner_nonempty (snd e)) a" "list_all (\<lambda>e. inner_nonempty (snd e)) b"
    using all sp(3,4) by (auto simp: list_all_iff)
  then show ?case
    using sp(1,2) update_mbr_Some[of a] update_mbr_Some[of b]
    by (auto simp: res_nodes_def split_mbrs_def)
qed

lemma insert_point_cases:
  assumes "inner_nonempty (root_node t)"
  obtains (nosplit) r where "ins (max_entries t) p (root_node t) = Inr (NoSplit r)"
      "insert_point t p = Inr (t\<lparr>root_node := r\<rparr>)" "inner_nonempty r"
  | (split) n1 n2 m1 m2 where "ins (max_entries t) p (root_node t) = Inr (Split n1 n2)"
      "mbr n1 = Some m1" "mbr n2 = Some m2" "inner_nonempty n1" "inner_nonempty n2"
      "insert_point t p =
         Inr (t\<lparr>root_node := Inner (update_mbr [(m1, n1), (m2, n2)]) [(m1, n1), (m2, n2)]\<rparr>)"
proof -
  obtain r where r: "ins (max_entries t) p (root_node t) = Inr r"
      "list_all inner_nonempty (res_nodes r)" "split_mbrs r"
    using ins_inner_nonempty[OF assms] by blast
  show ?thesis
  proof (cases r)
    case (NoSplit x)
    with r show ?thesis using nosplit[of x] by (simp add: insert_point_def res_nodes_def)
  next
    case (Split n1 n2)
    with r obtain m1 m2 where "mbr n1 = Some m1" "mbr n2 = Some m2"
      by (auto simp: split_mbrs_def)
    with r Split show ?thesis using split[of n1 n2 m1 m2]
      by (simp add: insert_point_def res_nodes_def new_root_def)
  qed
qed

lemma insert_point_total:
  assumes "inner_nonempty (root_node t)"
  shows "\<exists>t'. insert_point t p = Inr t' \<and> inner_nonempty (root_node t')
           \<and> max_entries t' = max_entries t \<and> min_entries t' = min_entries t"
  using assms by (cases rule: insert_point_cases[of t p]) auto



subsection \<open>Node capacity\<close>

lemma bounded_Leaf: "bounded M (Leaf mb es) \<longleftrightarrow> int (length es) \<le> M"
  by (simp add: bounded_def)

lemma bounded_Inner:
  "bounded M (Inner mb es) \<longleftrightarrow> int (length es) \<le> M \<and> list_all (\<lambda>e. bounded M (snd e)) es"
  by (auto simp: bounded_def list_all_iff)

lemma split_entries_lengths:
  assumes "split_entries es = Inr (a, b)" "length es > 1"
  shows "length a + length b = length es" "length a \<ge> 1" "length b \<ge> 1"
proof -
  have ne: "es \<noteq> []" using assms(2) by auto
  note sp = split_entries_props[OF assms(1) ne]
  have "size (mset a + mset b) = size (mset es)" using sp(5)[OF assms(2)] by simp
  then show "length a + length b = length es" by simp
  show "length a \<ge> 1" "length b \<ge> 1" using sp(1,2) by (simp_all add: Suc_le_eq)
qed

lemma ins_bounded:
  assumes "inner_nonempty t" "1 \<le> M"
  shows "\<exists>r. ins M p t = Inr r \<and> (bounded M t \<longrightarrow> list_all (bounded M) (res_nodes r))"
  using assms(1)
proof (induction rule: ins_rule[where M = M and p = p])
  case (leaf_fits mb es es')
  then show ?case by (simp add: res_nodes_def bounded_Leaf)
next
  case (leaf_overflow mb es es' a b)
  show ?case
  proof
    assume "bounded M (Leaf mb es)"
    then have len: "int (length es') \<le> M + 1" using leaf_overflow(1) by (simp add: bounded_Leaf)
    have "length es' > 1" using leaf_overflow(2) assms(2) by linarith
    from split_entries_lengths[OF leaf_overflow(3) this] len
    show "list_all (bounded M) (res_nodes (Split (Leaf (update_mbr a) a) (Leaf (update_mbr b) b)))"
      by (simp add: res_nodes_def bounded_Leaf)
  qed
next
  case (inner_nosplit mb es i c)
  show ?case
  proof
    assume b: "bounded M (Inner mb es)"
    then have "bounded M (snd (es ! i))"
      using inner_nosplit(1) by (auto simp: bounded_Inner list_all_length)
    with inner_nosplit(5) have "bounded M c" by (simp add: res_nodes_def)
    with b have "list_all (\<lambda>e. bounded M (snd e)) (es[i := (fst (es ! i), c)])"
      by (auto simp: bounded_Inner list_all_iff dest!: set_update_subset_insert[THEN subsetD])
    with b show "list_all (bounded M) (res_nodes (NoSplit (Inner mb (es[i := (fst (es ! i), c)]))))"
      by (simp add: res_nodes_def bounded_Inner)
  qed
next
  case (inner_fits mb es i n1 n2 m1 m2 es')
  show ?case
  proof
    assume b: "bounded M (Inner mb es)"
    then have "bounded M (snd (es ! i))"
      using inner_fits(1) by (auto simp: bounded_Inner list_all_length)
    with inner_fits(5) have n: "bounded M n1" "bounded M n2" by (simp_all add: res_nodes_def)
    have "list_all (\<lambda>e. bounded M (snd e)) (drop_entry i es)"
      using b set_drop_entry[of i es] by (auto simp: bounded_Inner list_all_iff)
    with n inner_fits(8,9)
    show "list_all (bounded M) (res_nodes (NoSplit (Inner (update_mbr es') es')))"
      by (simp add: res_nodes_def bounded_Inner)
  qed
next
  case (inner_overflow mb es i n1 n2 m1 m2 es' a b)
  show ?case
  proof
    assume bd: "bounded M (Inner mb es)"
    then have "bounded M (snd (es ! i))"
      using inner_overflow(1) by (auto simp: bounded_Inner list_all_length)
    with inner_overflow(5) have n: "bounded M n1" "bounded M n2" by (simp_all add: res_nodes_def)
    have "list_all (\<lambda>e. bounded M (snd e)) (drop_entry i es)"
      using bd set_drop_entry[of i es] by (auto simp: bounded_Inner list_all_iff)
    with n inner_overflow(8) have all: "list_all (\<lambda>e. bounded M (snd e)) es'" by simp
    have len: "int (length es') \<le> M + 1"
      using bd inner_overflow(1,8) by (simp add: bounded_Inner length_drop_entry)
    have gt: "length es' > 1" using inner_overflow(8) by simp
    have ne: "es' \<noteq> []" using gt by auto
    note sp = split_entries_props[OF inner_overflow(10) ne]
    have "list_all (\<lambda>e. bounded M (snd e)) a" "list_all (\<lambda>e. bounded M (snd e)) b"
      using all sp(3,4) by (auto simp: list_all_iff)
    with split_entries_lengths[OF inner_overflow(10) gt] len
    show "list_all (bounded M) (res_nodes (Split (Inner (update_mbr a) a) (Inner (update_mbr b) b)))"
      by (simp add: res_nodes_def bounded_Inner)
  qed
qed

lemma insert_point_bounded:
  assumes "inner_nonempty (root_node t)" "bounded (max_entries t) (root_node t)"
    "2 \<le> max_entries t" "insert_point t p = Inr t'"
  shows "bounded (max_entries t') (root_node t')"
proof -
  obtain r where r: "ins (max_entries t) p (root_node t) = Inr r"
      "list_all (bounded (max_entries t)) (res_nodes r)"
    using ins_bounded[OF assms(1), of "max_entries t" p] assms(2,3) by auto
  from assms(1) show ?thesis
  proof (cases rule: insert_point_cases[of t p])
    case (nosplit x)
    with r assms(4) show ?thesis by (auto simp: res_nodes_def)
  next
    case (split n1 n2 m1 m2)
    with r assms(3,4) show ?thesis by (auto simp: res_nodes_def bounded_Inner)
  qed
qed


subsection \<open>Leaf depth\<close>

lemma height_is_leaf_depths: "height_is h t \<Longrightarrow> balanced h t"
proof (induction t arbitrary: h)
  case (Leaf mb es)
  then show ?case by (simp add: balanced_def)
next
  case (Inner mb es)
  then obtain k where k: "h = Suc k" "list_all (\<lambda>e. height_is k (snd e)) es"
    by (cases h) auto
  have "balanced k (snd e)" if "e \<in> set es" for e
  proof -
    have "snd e \<in> Basic_BNFs.snds e" by (cases e) simp
    moreover have "height_is k (snd e)" using k(2) that by (simp add: list_all_iff)
    ultimately show ?thesis using Inner.IH[OF that] by blast
  qed
  then show ?case
    by (auto simp: balanced_def list_all_iff k(1))
qed

lemma ins_height:
  assumes "inner_nonempty t"
  shows "\<exists>r. ins M p t = Inr r \<and> (\<forall>h. height_is h t \<longrightarrow> list_all (height_is h) (res_nodes r))"
  using assms
proof (induction rule: ins_rule[where M = M and p = p])
  case (leaf_fits mb es es')
  then show ?case by (simp add: res_nodes_def)
next
  case (leaf_overflow mb es es' a b)
  then show ?case by (simp add: res_nodes_def)
next
  case (inner_nosplit mb es i c)
  show ?case
  proof (intro allI impI)
    fix h assume "height_is h (Inner mb es)"
    then obtain k where k: "h = Suc k" "list_all (\<lambda>e. height_is k (snd e)) es"
      by (cases h) auto
    then have "height_is k (snd (es ! i))"
      using inner_nosplit(1) by (simp add: list_all_length)
    with inner_nosplit(5) have "height_is k c" by (simp add: res_nodes_def)
    with k(2) have "list_all (\<lambda>e. height_is k (snd e)) (es[i := (fst (es ! i), c)])"
      by (auto simp: list_all_iff dest!: set_update_subset_insert[THEN subsetD])
    then show "list_all (height_is h) (res_nodes (NoSplit (Inner mb (es[i := (fst (es ! i), c)]))))"
      by (simp add: res_nodes_def k(1))
  qed
next
  case (inner_fits mb es i n1 n2 m1 m2 es')
  show ?case
  proof (intro allI impI)
    fix h assume "height_is h (Inner mb es)"
    then obtain k where k: "h = Suc k" "list_all (\<lambda>e. height_is k (snd e)) es"
      by (cases h) auto
    then have "height_is k (snd (es ! i))"
      using inner_fits(1) by (simp add: list_all_length)
    with inner_fits(5) have n: "height_is k n1" "height_is k n2" by (simp_all add: res_nodes_def)
    have "list_all (\<lambda>e. height_is k (snd e)) (drop_entry i es)"
      using k(2) set_drop_entry[of i es] by (auto simp: list_all_iff)
    with n inner_fits(8)
    show "list_all (height_is h) (res_nodes (NoSplit (Inner (update_mbr es') es')))"
      by (simp add: res_nodes_def k(1))
  qed
next
  case (inner_overflow mb es i n1 n2 m1 m2 es' a b)
  show ?case
  proof (intro allI impI)
    fix h assume "height_is h (Inner mb es)"
    then obtain k where k: "h = Suc k" "list_all (\<lambda>e. height_is k (snd e)) es"
      by (cases h) auto
    then have "height_is k (snd (es ! i))"
      using inner_overflow(1) by (simp add: list_all_length)
    with inner_overflow(5) have n: "height_is k n1" "height_is k n2"
      by (simp_all add: res_nodes_def)
    have "list_all (\<lambda>e. height_is k (snd e)) (drop_entry i es)"
      using k(2) set_drop_entry[of i es] by (auto simp: list_all_iff)
    with n inner_overflow(8) have all: "list_all (\<lambda>e. height_is k (snd e)) es'" by simp
    have ne: "es' \<noteq> []" using inner_overflow(8) by simp
    note sp = split_entries_props[OF inner_overflow(10) ne]
    have "list_all (\<lambda>e. height_is k (snd e)) a" "list_all (\<lambda>e. height_is k (snd e)) b"
      using all sp(3,4) by (auto simp: list_all_iff)
    then show "list_all (height_is h)
                 (res_nodes (Split (Inner (update_mbr a) a) (Inner (update_mbr b) b)))"
      by (simp add: res_nodes_def k(1))
  qed
qed

lemma insert_point_height:
  assumes "inner_nonempty (root_node t)" "height_is h (root_node t)" "insert_point t p = Inr t'"
  shows "height_is h (root_node t') \<or> height_is (Suc h) (root_node t')"
proof -
  obtain r where r: "ins (max_entries t) p (root_node t) = Inr r"
      "list_all (height_is h) (res_nodes r)"
    using ins_height[OF assms(1), of "max_entries t" p] assms(2) by auto
  from assms(1) show ?thesis
  proof (cases rule: insert_point_cases[of t p])
    case (nosplit x)
    with r assms(3) show ?thesis by (auto simp: res_nodes_def)
  next
    case (split n1 n2 m1 m2)
    with r assms(3) show ?thesis by (auto simp: res_nodes_def)
  qed
qed

subsection \<open>Stored points\<close>

lemma mset_points_Inner:
  "mset (points_of (Inner mb es)) = (\<Sum>e\<in>#mset es. mset (points_of (snd e)))"
  by (induction es) auto

lemma mset_points_Leaf: "mset (points_of (Leaf mb es)) = image_mset snd (mset es)"
  by simp

lemma mset_list_update_drop:
  "i < length es \<Longrightarrow> mset (es[i := x]) = add_mset x (mset (drop_entry i es))"
  by (simp add: upd_conv_take_nth_drop drop_entry_def)

lemma ins_points:
  assumes "inner_nonempty t" "1 \<le> M"
  shows "\<exists>r. ins M p t = Inr r
           \<and> (\<Sum>n\<in>#mset (res_nodes r). mset (points_of n)) = add_mset p (mset (points_of t))"
  using assms(1)
proof (induction rule: ins_rule[where M = M and p = p])
  case (leaf_fits mb es es')
  then show ?case by (simp add: res_nodes_def)
next
  case (leaf_overflow mb es es' a b)
  have "length es' > 1" using leaf_overflow(2) assms(2) by linarith
  moreover have "es' \<noteq> []" using leaf_overflow(1) by simp
  ultimately have "mset a + mset b = mset es'"
    using split_entries_props(5)[OF leaf_overflow(3)] by blast
  then have "image_mset snd (mset a) + image_mset snd (mset b) = image_mset snd (mset es')"
    by (metis image_mset_union)
  then show ?case
    using leaf_overflow(1) by (simp add: res_nodes_def)
next
  case (inner_nosplit mb es i c)
  have c: "mset (points_of c) = add_mset p (mset (points_of (snd (es ! i))))"
    using inner_nosplit(5) by (simp add: res_nodes_def)
  have "mset (points_of (Inner mb (es[i := (fst (es ! i), c)])))
        = mset (points_of c) + (\<Sum>e\<in>#mset (drop_entry i es). mset (points_of (snd e)))"
    unfolding mset_points_Inner mset_list_update_drop[OF inner_nosplit(1)] by simp
  also have "\<dots> = add_mset p (\<Sum>e\<in>#add_mset (es ! i) (mset (drop_entry i es)).
                                 mset (points_of (snd e)))"
    using c by simp
  also have "\<dots> = add_mset p (mset (points_of (Inner mb es)))"
    unfolding mset_points_Inner mset_drop_entry[OF inner_nosplit(1)] ..
  finally show ?case
    by (simp add: res_nodes_def)
next
  case (inner_fits mb es i n1 n2 m1 m2 es')
  have n: "mset (points_of n1) + mset (points_of n2)
           = add_mset p (mset (points_of (snd (es ! i))))"
    using inner_fits(5) by (simp add: res_nodes_def)
  have "mset (points_of (Inner (update_mbr es') es'))
        = mset (points_of n1) + mset (points_of n2)
          + (\<Sum>e\<in>#mset (drop_entry i es). mset (points_of (snd e)))"
    unfolding mset_points_Inner inner_fits(8) by simp
  also have "\<dots> = add_mset p (\<Sum>e\<in>#add_mset (es ! i) (mset (drop_entry i es)).
                                 mset (points_of (snd e)))"
    using n by simp
  also have "\<dots> = add_mset p (mset (points_of (Inner mb es)))"
    unfolding mset_points_Inner mset_drop_entry[OF inner_fits(1)] ..
  finally show ?case
    by (simp add: res_nodes_def)
next
  case (inner_overflow mb es i n1 n2 m1 m2 es' a b)
  have n: "mset (points_of n1) + mset (points_of n2)
           = add_mset p (mset (points_of (snd (es ! i))))"
    using inner_overflow(5) by (simp add: res_nodes_def)
  have gt: "length es' > 1" using inner_overflow(8) by simp
  then have ne: "es' \<noteq> []" by auto
  have ab: "mset a + mset b = mset es'"
    using split_entries_props(5)[OF inner_overflow(10) ne gt] .
  have "mset (points_of (Inner (update_mbr a) a)) + mset (points_of (Inner (update_mbr b) b))
        = (\<Sum>e\<in>#mset es'. mset (points_of (snd e)))"
    unfolding mset_points_Inner ab[symmetric] by simp
  also have "\<dots> = mset (points_of n1) + mset (points_of n2)
          + (\<Sum>e\<in>#mset (drop_entry i es). mset (points_of (snd e)))"
    unfolding inner_overflow(8) by simp
  also have "\<dots> = add_mset p (\<Sum>e\<in>#add_mset (es ! i) (mset (drop_entry i es)).
                                 mset (points_of (snd e)))"
    using n by simp
  also have "\<dots> = add_mset p (mset (points_of (Inner mb es)))"
    unfolding mset_points_Inner mset_drop_entry[OF inner_overflow(1)] ..
  finally show ?case
    by (simp add: res_nodes_def)
qed

lemma insert_point_points:
  assumes "inner_nonempty (root_node t)" "1 \<le> max_entries t" "insert_point t p = Inr t'"
  shows "mset (points_of (root_node t')) = add_mset p (mset (points_of (root_node t)))"
proof -
  obtain r where r: "ins (max_entries t) p (root_node t) = Inr r"
      "(\<Sum>n\<in>#mset (res_nodes r). mset (points_of n)) = add_mset p (mset (points_of (root_node t)))"
    using ins_points[OF assms(1,2), of p] by auto
  from assms(1) show ?thesis
  proof (cases rule: insert_point_cases[of t p])
    case (nosplit x)
    with r assms(3) show ?thesis by (auto simp: res_nodes_def)
  next
    case (split n1 n2 m1 m2)
    with r assms(3) show ?thesis by (auto simp: res_nodes_def)
  qed
qed


subsection \<open>Sequences of insertions\<close>

lemma insert_all_invariant:
  assumes "inner_nonempty (root_node t)" "Q t"
    and step: "\<And>t p t'. inner_nonempty (root_node t) \<Longrightarrow> Q t \<Longrightarrow> insert_point t p = Inr t' \<Longrightarrow> Q t'"
  shows "\<exists>t'. insert_all t ps = Inr t' \<and> Q t' \<and> inner_nonempty (root_node t')"
  using assms(1,2)
proof (induction ps arbitrary: t)
  case Nil
  then show ?case by simp
next
  case (Cons p ps)
  obtain t1 where t1: "insert_point t p = Inr t1" "inner_nonempty (root_node t1)"
    using insert_point_total[OF Cons.prems(1)] by blast
  have "Q t1" using step[OF Cons.prems t1(1)] .
  from Cons.IH[OF t1(2) this] t1(1) show ?case by simp
qed

lemma insert_point_max_entries:
  "insert_point t p = Inr t' \<Longrightarrow> max_entries t' = max_entries t \<and> min_entries t' = min_entries t"
  by (auto simp: insert_point_def split: sum.splits ins_result.splits)

lemma count_recursive_total:
  "total_entries (count_recursive n c) = total_entries c + length (points_of n)"
proof (induction n arbitrary: c)
  case (Leaf mb es)
  then show ?case by (cases c) (simp add: total_entries_def)
next
  case (Inner mb es)
  have step: "total_entries (fold (\<lambda>e c. count_recursive (snd e) c) xs c')
        = total_entries c' + length (concat (map (\<lambda>e. points_of (snd e)) xs))"
    if "set xs \<subseteq> set es" for xs c'
    using that
  proof (induction xs arbitrary: c')
    case Nil
    then show ?case by simp
  next
    case (Cons x xs)
    have "snd x \<in> Basic_BNFs.snds x" by (cases x) simp
    moreover have "x \<in> set es" using Cons.prems by simp
    ultimately have "total_entries (count_recursive (snd x) c')
                     = total_entries c' + length (points_of (snd x))"
      using Inner.IH by blast
    then show ?case using Cons by simp
  qed
  obtain l i t where c: "c = (l, i, t)" by (cases c)
  show ?case
    unfolding c using step[of es "(l, i + 1, t)"] by (simp add: total_entries_def)
qed

lemma count_nodes_total: "total_entries (count_nodes t) = length (points_of (root_node t))"
  using count_recursive_total[of "root_node t" "(0, 0, 0)"]
  by (simp add: count_nodes_def total_entries_def)

lemma foldl_max_const:
  "xs \<noteq> [] \<Longrightarrow> \<forall>x\<in>set xs. x = v \<Longrightarrow> foldl max a xs = max a (v::nat)"
proof (induction xs arbitrary: a)
  case Nil
  then show ?case by simp
next
  case (Cons x xs)
  show ?case
  proof (cases "xs = []")
    case True
    with Cons.prems show ?thesis by simp
  next
    case False
    with Cons.IH[OF False, of "max a x"] Cons.prems show ?thesis by simp
  qed
qed

lemma height_is_get_height:
  "height_is h t \<Longrightarrow> inner_nonempty t \<Longrightarrow> get_height_recursive t = Suc h"
proof (induction t arbitrary: h)
  case (Leaf mb es)
  then show ?case by simp
next
  case (Inner mb es)
  then obtain k where k: "h = Suc k" "list_all (\<lambda>e. height_is k (snd e)) es"
    by (cases h) auto
  have ne: "es \<noteq> []" using Inner.prems(2) by simp
  have "get_height_recursive (snd e) = Suc k" if "e \<in> set es" for e
  proof -
    have "snd e \<in> Basic_BNFs.snds e" by (cases e) simp
    moreover have "height_is k (snd e)" using k(2) that by (simp add: list_all_iff)
    moreover have "inner_nonempty (snd e)" using inner_nonempty_child[OF Inner.prems(2) that] .
    ultimately show ?thesis using Inner.IH[OF that] by blast
  qed
  then have "\<forall>x\<in>set (map (\<lambda>e. get_height_recursive (snd e)) es). x = Suc k" by auto
  then have "foldl max 0 (map (\<lambda>e. get_height_recursive (snd e)) es) = Suc k"
    using foldl_max_const[of "map (\<lambda>e. get_height_recursive (snd e)) es" "Suc k" 0] ne by simp
  then show ?case using ne k(1) by simp
qed

lemma insert_point_root_cases:
  assumes "inner_nonempty (root_node t)" "height_is h (root_node t)"
  shows "\<exists>t'. insert_point t p = Inr t'
           \<and> (height_is h (root_node t')
                \<or> (height_is (Suc h) (root_node t')
                    \<and> (\<exists>n1 n2. ins (max_entries t) p (root_node t) = Inr (Split n1 n2)
                          \<and> map snd (child_entries (root_node t')) = [n1, n2])))"
proof -
  obtain r where r: "ins (max_entries t) p (root_node t) = Inr r"
      "list_all (height_is h) (res_nodes r)"
    using ins_height[OF assms(1), of "max_entries t" p] assms(2) by auto
  from assms(1) show ?thesis
  proof (cases rule: insert_point_cases[of t p])
    case (nosplit x)
    with r show ?thesis by (auto simp: res_nodes_def)
  next
    case (split n1 n2 m1 m2)
    with r show ?thesis by (auto simp: res_nodes_def)
  qed
qed

lemma insert_all_points:
  assumes "1 \<le> M"
  shows "\<exists>t. insert_all (RTree_init M) ps = Inr t \<and> max_entries t = M
           \<and> mset (points_of (root_node t)) = mset ps"
proof -
  have pts: "\<exists>t'. insert_all t ps = Inr t' \<and> max_entries t' = max_entries t
          \<and> mset (points_of (root_node t')) = mset (points_of (root_node t)) + mset ps"
    if "inner_nonempty (root_node t)" "1 \<le> max_entries t" for t :: "'a RTree"
    using that
  proof (induction ps arbitrary: t)
    case Nil
    then show ?case by simp
  next
    case (Cons p ps)
    obtain t1 where t1: "insert_point t p = Inr t1" "inner_nonempty (root_node t1)"
        "max_entries t1 = max_entries t"
      using insert_point_total[OF Cons.prems(1)] by blast
    have "mset (points_of (root_node t1)) = add_mset p (mset (points_of (root_node t)))"
      using insert_point_points[OF Cons.prems t1(1)] .
    moreover have "1 \<le> max_entries t1" using t1(3) Cons.prems(2) by simp
    ultimately show ?case
      using Cons.IH[OF t1(2)] t1(1,3) by auto
  qed
  have "inner_nonempty (root_node (RTree_init M :: 'a RTree))"
       "1 \<le> max_entries (RTree_init M :: 'a RTree)"
    using assms by (simp_all add: RTree_init_def)
  from pts[OF this] show ?thesis
    by (auto simp: RTree_init_def)
qed

subsection \<open>The haversine distance\<close>

lemma distance_to_same_place:
  "lat p = lat q \<Longrightarrow> lon p = lon q \<Longrightarrow> distance_to p q = 0"
  by (simp add: distance_to_def hav_a_def Let_def)

lemma hav_a_sym: "hav_a p q = hav_a q p"
proof -
  have "sin ((x - y) / 2) ^ 2 = sin ((y - x) / 2) ^ 2" for x y :: real
  proof -
    have "(x - y) / 2 = - ((y - x) / 2)" by argo
    then show ?thesis by (metis sin_minus power2_minus)
  qed
  then show ?thesis by (simp add: hav_a_def Let_def mult.commute)
qed

lemma distance_to_sym: "distance_to p q = distance_to q p"
  by (simp add: distance_to_def hav_a_sym[of p q])

lemma sin_half_squared: "(sin (x / 2))\<^sup>2 = (1 - cos x) / 2" for x :: real
  using cos_double_sin[of "x / 2"] by simp

lemma prod_le_half_squares: "x * y \<le> (x\<^sup>2 + y\<^sup>2) / 2" for x y :: real
  using zero_le_power2[of "x - y"] by (simp add: power2_diff)

lemma neg_prod_le_half_squares: "- (x * y) \<le> (x\<^sup>2 + y\<^sup>2) / 2" for x y :: real
  using zero_le_power2[of "x + y"] by (simp add: power2_sum)

lemma abs_prod_le_half_squares: "\<bar>x * y\<bar> \<le> (x\<^sup>2 + y\<^sup>2) / 2" for x y :: real
  using prod_le_half_squares[of x y] neg_prod_le_half_squares[of x y] by (simp add: abs_le_iff)

lemma central_cos_bound:
  "\<bar>sin a * sin b + cos a * cos b * k\<bar> \<le> 1" if "\<bar>k\<bar> \<le> 1" for a b k :: real
proof -
  have "\<bar>cos a * cos b * k\<bar> = \<bar>cos a * cos b\<bar> * \<bar>k\<bar>" by (simp add: abs_mult)
  also have "\<dots> \<le> \<bar>cos a * cos b\<bar> * 1"
    by (rule mult_left_mono) (use that in simp_all)
  finally have c: "\<bar>cos a * cos b * k\<bar> \<le> ((cos a)\<^sup>2 + (cos b)\<^sup>2) / 2"
    using abs_prod_le_half_squares[of "cos a" "cos b"] by simp
  have s: "\<bar>sin a * sin b\<bar> \<le> ((sin a)\<^sup>2 + (sin b)\<^sup>2) / 2"
    by (rule abs_prod_le_half_squares)
  have "\<bar>sin a * sin b + cos a * cos b * k\<bar> \<le> \<bar>sin a * sin b\<bar> + \<bar>cos a * cos b * k\<bar>"
    by (rule abs_triangle_ineq)
  also have "\<dots> \<le> ((sin a)\<^sup>2 + (sin b)\<^sup>2) / 2 + ((cos a)\<^sup>2 + (cos b)\<^sup>2) / 2"
    using c s by linarith
  also have "\<dots> = 1"
    using sin_cos_squared_add[of a] sin_cos_squared_add[of b] by argo
  finally show ?thesis .
qed

lemma hav_a_central:
  "hav_a p q = (1 - (sin (radians (lat p)) * sin (radians (lat q))
                     + cos (radians (lat p)) * cos (radians (lat q))
                       * cos (radians (lon q) - radians (lon p)))) / 2"
  unfolding hav_a_def Let_def sin_half_squared cos_diff
  by (simp add: field_simps)

lemma hav_a_range: "0 \<le> hav_a p q \<and> hav_a p q \<le> 1"
proof -
  have "\<bar>cos (radians (lon q) - radians (lon p))\<bar> \<le> 1" by (rule abs_cos_le_one)
  from central_cos_bound[OF this, of "radians (lat p)" "radians (lat q)"]
  show ?thesis unfolding hav_a_central by (simp add: abs_le_iff)
qed

lemma atan2_asin:
  assumes "0 \<le> a" "a \<le> 1"
  shows "py_atan2 (sqrt a) (sqrt (1 - a)) = arcsin (sqrt a)"
proof (cases "a = 1")
  case True
  then show ?thesis by (simp add: py_atan2_def)
next
  case False
  with assms have lt: "a < 1" by simp
  then have pos: "sqrt (1 - a) > 0" by simp
  have "sqrt a < 1" using lt assms by (simp add: real_sqrt_lt_1_iff)
  moreover have "- 1 < sqrt a" using assms by (smt (verit) real_sqrt_ge_zero)
  ultimately have "arcsin (sqrt a) = arctan (sqrt a / sqrt (1 - (sqrt a)\<^sup>2))"
    by (rule arcsin_arctan[rotated])
  also have "(sqrt a)\<^sup>2 = a" using assms by simp
  finally show ?thesis using pos by (simp add: py_atan2_def)
qed

lemma distance_km_eq: "distance_km (lat p) (lon p) (lat q) (lon q) = distance_to p q"
proof -
  have "distance_km (lat p) (lon p) (lat q) (lon q)
        = 6371 * (2 * py_atan2 (sqrt (hav_a p q)) (sqrt (1 - hav_a p q)))"
    by (simp add: distance_km_def hav_a_def Let_def)
  then show ?thesis
    using atan2_asin[of "hav_a p q"] hav_a_range[of p q] by (simp add: distance_to_def)
qed

lemma linear_search_brute_force:
  "linear_search ps (lat c) (lon c) r = brute_force ps c r"
  by (simp add: linear_search_def brute_force_def distance_km_eq)

lemma distance_to_nonneg: "0 \<le> distance_to p q"
proof -
  have "0 \<le> sqrt (hav_a p q)" "sqrt (hav_a p q) \<le> 1"
    using hav_a_range[of p q] by (simp_all add: real_sqrt_le_1_iff)
  then have "0 \<le> arcsin (sqrt (hav_a p q))"
    using arcsin_le_arcsin[of 0 "sqrt (hav_a p q)"] by simp
  then show ?thesis by (simp add: distance_to_def)
qed

lemma equator_distance:
  assumes "lat p = 0" "lat q = 0" "\<bar>lon q - lon p\<bar> \<le> 180"
  shows "distance_to p q = 6371 * (\<bar>lon q - lon p\<bar> * pi / 180)"
proof -
  let ?x = "(radians (lon q) - radians (lon p)) / 2"
  have x: "?x = (lon q - lon p) * pi / 360" by (simp add: radians_def field_simps)
  have ax: "\<bar>?x\<bar> = \<bar>lon q - lon p\<bar> * pi / 360" unfolding x by (simp add: abs_mult)
  have bound: "\<bar>?x\<bar> \<le> pi / 2"
  proof -
    have "\<bar>lon q - lon p\<bar> * pi \<le> 180 * pi"
      by (rule mult_right_mono) (use assms(3) in simp_all)
    then show ?thesis unfolding ax by simp
  qed
  have a: "hav_a p q = (sin ?x)\<^sup>2"
    using assms(1,2) by (simp add: hav_a_def Let_def radians_def)
  have "sqrt (hav_a p q) = \<bar>sin ?x\<bar>" unfolding a by simp
  also have "\<dots> = sin \<bar>?x\<bar>"
  proof -
    have p4: "pi / 2 \<le> pi" using pi_ge_zero by linarith
    show ?thesis
    proof (cases "0 \<le> ?x")
      case True
      then have "?x \<le> pi" using bound p4 by linarith
      with True have "0 \<le> sin ?x" by (rule sin_ge_zero)
      with True show ?thesis by simp
    next
      case False
      then have "0 \<le> - ?x" "- ?x \<le> pi" using bound p4 by linarith+
      then have "0 \<le> sin (- ?x)" by (rule sin_ge_zero)
      with False show ?thesis by (simp add: abs_if)
    qed
  qed
  finally have "arcsin (sqrt (hav_a p q)) = \<bar>?x\<bar>"
    using bound by (simp add: arcsin_sin)
  then have e: "arcsin (sqrt (hav_a p q)) = \<bar>lon q - lon p\<bar> * pi / 360"
    unfolding ax .
  show ?thesis unfolding distance_to_def e by simp
qed

lemma equator_distance_wrap:
  assumes "lat p = 0" "lat q = 0" "180 \<le> \<bar>lon q - lon p\<bar>" "\<bar>lon q - lon p\<bar> \<le> 360"
  shows "distance_to p q = 6371 * ((360 - \<bar>lon q - lon p\<bar>) * pi / 180)"
proof -
  let ?x = "(radians (lon q) - radians (lon p)) / 2"
  have x: "?x = (lon q - lon p) * pi / 360" by (simp add: radians_def field_simps)
  have ax: "\<bar>?x\<bar> = \<bar>lon q - lon p\<bar> * pi / 360" unfolding x by (simp add: abs_mult)
  have lo: "pi / 2 \<le> \<bar>?x\<bar>"
  proof -
    have "180 * pi \<le> \<bar>lon q - lon p\<bar> * pi"
      by (rule mult_right_mono) (use assms(3) in simp_all)
    then show ?thesis unfolding ax by simp
  qed
  have hi: "\<bar>?x\<bar> \<le> pi"
  proof -
    have "\<bar>lon q - lon p\<bar> * pi \<le> 360 * pi"
      by (rule mult_right_mono) (use assms(4) in simp_all)
    then show ?thesis unfolding ax by simp
  qed
  have a: "hav_a p q = (sin ?x)\<^sup>2"
    using assms(1,2) by (simp add: hav_a_def Let_def radians_def)
  have "sqrt (hav_a p q) = \<bar>sin ?x\<bar>" unfolding a by simp
  also have "\<dots> = sin \<bar>?x\<bar>"
  proof (cases "0 \<le> ?x")
    case True
    then have "0 \<le> sin ?x" using hi by (intro sin_ge_zero) simp_all
    with True show ?thesis by simp
  next
    case False
    then have "0 \<le> - ?x" "- ?x \<le> pi" using hi by linarith+
    then have "0 \<le> sin (- ?x)" by (rule sin_ge_zero)
    with False show ?thesis by (simp add: abs_if)
  qed
  also have "\<dots> = sin (pi - \<bar>?x\<bar>)" by simp
  finally have s: "sqrt (hav_a p q) = sin (pi - \<bar>?x\<bar>)" .
  have "arcsin (sin (pi - \<bar>?x\<bar>)) = pi - \<bar>?x\<bar>"
    by (rule arcsin_sin) (use lo hi in linarith)+
  then have "arcsin (sqrt (hav_a p q)) = pi - \<bar>?x\<bar>"
    unfolding s .
  then have e: "arcsin (sqrt (hav_a p q)) = (360 - \<bar>lon q - lon p\<bar>) * pi / 360"
    unfolding ax by (simp add: field_simps)
  show ?thesis unfolding distance_to_def e by simp
qed

subsection \<open>The search\<close>

lemma mset_concat_mono:
  "(\<And>e. e \<in> set es \<Longrightarrow> mset (f e) \<subseteq># mset (g e))
   \<Longrightarrow> mset (concat (map f es)) \<subseteq># mset (concat (map g es))"
  by (induction es) (auto intro: subset_mset.add_mono)

lemma leaf_candidates:
  "map (\<lambda>e. (snd e, distance_to c (snd e)))
     (filter (\<lambda>e. clat - hl \<le> lat (snd e) \<and> lat (snd e) \<le> clat + hl
                  \<and> clon - hlon \<le> lon (snd e) \<and> lon (snd e) \<le> clon + hlon) es)
   = map (\<lambda>p. (p, distance_to c p)) (filter (in_rect clat clon hl hlon) (map snd es))"
  by (induction es) (auto simp: in_rect_def)

lemma search_recursive_sound:
  "mset (search_square_recursive n clat clon hl hlon c)
     \<subseteq># mset (map (\<lambda>p. (p, distance_to c p)) (filter (in_rect clat clon hl hlon) (points_of n)))"
proof (induction n)
  case (Leaf mb es)
  show ?case
    by (cases mb) (simp_all add: Let_def leaf_candidates del: mset_map mset_filter)
next
  case (Inner mb es)
  have sub: "mset (search_square_recursive (snd e) clat clon hl hlon c)
     \<subseteq># mset (map (\<lambda>p. (p, distance_to c p))
                (filter (in_rect clat clon hl hlon) (points_of (snd e))))"
    if "e \<in> set es" for e
  proof -
    have "snd e \<in> Basic_BNFs.snds e" by (cases e) simp
    with Inner.IH[OF that] show ?thesis by blast
  qed
  have all: "mset (concat (map (\<lambda>e. search_square_recursive (snd e) clat clon hl hlon c) es))
     \<subseteq># mset (concat (map (\<lambda>e. map (\<lambda>p. (p, distance_to c p))
                (filter (in_rect clat clon hl hlon) (points_of (snd e)))) es))"
    by (rule mset_concat_mono) (rule sub)
  have eq: "map (\<lambda>p. (p, distance_to c p))
              (filter (in_rect clat clon hl hlon) (points_of (Inner mb es)))
            = concat (map (\<lambda>e. map (\<lambda>p. (p, distance_to c p))
                (filter (in_rect clat clon hl hlon) (points_of (snd e)))) es)"
    by (simp add: filter_concat map_concat comp_def)
  show ?case
    unfolding eq using all by (cases mb) (simp_all del: mset_map mset_filter mset_concat)
qed

lemma intersects_square_contains:
  assumes "contains_point m p" "in_rect clat clon hl hlon p"
  shows "intersects_square m clat clon hl hlon"
  using assms by (auto simp: contains_point_def in_rect_def intersects_square_def Let_def)

lemma covered_child:
  assumes "covered (Inner mb es)" "e \<in> set es"
  shows "covered (snd e)"
  using assms by (auto simp: covered_def list_all_iff)

lemma covered_root:
  assumes "covered t" "p \<in> set (points_of t)"
  shows "mbr_contains t p"
proof -
  have "t \<in> set (nodes t)" by (cases t) simp_all
  with assms show ?thesis by (auto simp: covered_def list_all_iff)
qed

lemma pruned_empty:
  assumes "covered t"
    and "mbr t = None \<or> (\<exists>m. mbr t = Some m \<and> \<not> intersects_square m clat clon hl hlon)"
  shows "filter (in_rect clat clon hl hlon) (points_of t) = []"
proof -
  have "\<not> in_rect clat clon hl hlon p" if "p \<in> set (points_of t)" for p
    using covered_root[OF assms(1) that] assms(2) intersects_square_contains[of _ p clat clon hl hlon]
    by (auto simp: mbr_contains_def)
  then show ?thesis by (simp add: filter_empty_conv)
qed

lemma search_recursive_complete:
  "covered n \<Longrightarrow>
   search_square_recursive n clat clon hl hlon c
     = map (\<lambda>p. (p, distance_to c p)) (filter (in_rect clat clon hl hlon) (points_of n))"
proof (induction n)
  case (Leaf mb es)
  show ?case
  proof (cases "mb = None \<or> (\<exists>m. mb = Some m \<and> \<not> intersects_square m clat clon hl hlon)")
    case True
    then have "filter (in_rect clat clon hl hlon) (points_of (Leaf mb es)) = []"
      using pruned_empty[OF Leaf.prems, of clat clon hl hlon] by simp
    moreover have "search_square_recursive (Leaf mb es) clat clon hl hlon c = []"
      using True by auto
    ultimately show ?thesis by simp
  next
    case False
    then show ?thesis by (auto simp: Let_def leaf_candidates)
  qed
next
  case (Inner mb es)
  show ?case
  proof (cases "mb = None \<or> (\<exists>m. mb = Some m \<and> \<not> intersects_square m clat clon hl hlon)")
    case True
    then have "filter (in_rect clat clon hl hlon) (points_of (Inner mb es)) = []"
      using pruned_empty[OF Inner.prems, of clat clon hl hlon] by simp
    moreover have "search_square_recursive (Inner mb es) clat clon hl hlon c = []"
      using True by auto
    ultimately show ?thesis by simp
  next
    case False
    have ch: "search_square_recursive (snd e) clat clon hl hlon c
          = map (\<lambda>p. (p, distance_to c p))
              (filter (in_rect clat clon hl hlon) (points_of (snd e)))"
      if "e \<in> set es" for e
    proof -
      have "snd e \<in> Basic_BNFs.snds e" by (cases e) simp
      with Inner.IH[OF that _ covered_child[OF Inner.prems that]] show ?thesis by blast
    qed
    have "search_square_recursive (Inner mb es) clat clon hl hlon c
          = concat (map (\<lambda>e. search_square_recursive (snd e) clat clon hl hlon c) es)"
      using False by auto
    also have "\<dots> = concat (map (\<lambda>e. map (\<lambda>p. (p, distance_to c p))
              (filter (in_rect clat clon hl hlon) (points_of (snd e)))) es)"
      using ch by (auto intro!: arg_cong[of _ _ concat])
    also have "\<dots> = map (\<lambda>p. (p, distance_to c p))
              (filter (in_rect clat clon hl hlon) (points_of (Inner mb es)))"
      by (simp add: filter_concat map_concat comp_def)
    finally show ?thesis .
  qed
qed


subsection \<open>Seed picking against its description\<close>

lemma py_max_Max: "xs \<noteq> [] \<Longrightarrow> py_max xs = Max (set xs)"
proof (cases xs)
  case Nil
  then show "xs \<noteq> [] \<Longrightarrow> ?thesis" by simp
next
  case (Cons x ys)
  have "foldl max x ys = fold max ys x"
    by (simp add: foldl_conv_fold max.commute)
  then show ?thesis unfolding Cons using Max.set_eq_fold[of x ys] by simp
qed

lemma py_min_Min: "xs \<noteq> [] \<Longrightarrow> py_min xs = Min (set xs)"
proof (cases xs)
  case Nil
  then show "xs \<noteq> [] \<Longrightarrow> ?thesis" by simp
next
  case (Cons x ys)
  have "foldl min x ys = fold min ys x"
    by (simp add: foldl_conv_fold min.commute)
  then show ?thesis unfolding Cons using Min.set_eq_fold[of x ys] by simp
qed

lemma last_index_Cons_later:
  "last_index P xs i \<Longrightarrow> last_index P (x # xs) (Suc i)"
  unfolding last_index_def
  by (auto simp: nth_Cons split: nat.splits)

lemma last_index_Cons_here:
  "P x \<Longrightarrow> \<forall>y\<in>set xs. \<not> P y \<Longrightarrow> last_index P (x # xs) 0"
  unfolding last_index_def by (auto simp: nth_Cons split: nat.splits)

lemma seed_loop_last:
  "seed_loop lo hi a b k es (s1, s2) = (r1, r2) \<Longrightarrow>
     (if \<exists>e\<in>set es. lo (fst e) = a
      then \<exists>i. r1 = k + i \<and> last_index (\<lambda>e. lo (fst e) = a) es i else r1 = s1)
   \<and> (if \<exists>e\<in>set es. hi (fst e) = b
      then \<exists>i. r2 = k + i \<and> last_index (\<lambda>e. hi (fst e) = b) es i else r2 = s2)"
proof (induction es arbitrary: k s1 s2)
  case Nil
  then show ?case by simp
next
  case (Cons e es)
  let ?t1 = "if lo (fst e) = a then k else s1" and ?t2 = "if hi (fst e) = b then k else s2"
  have run: "seed_loop lo hi a b (Suc k) es (?t1, ?t2) = (r1, r2)"
    using Cons.prems by simp
  note ih = Cons.IH[OF run]
  have one: "if \<exists>x\<in>set (e # es). lo (fst x) = a
      then \<exists>i. r1 = k + i \<and> last_index (\<lambda>e. lo (fst e) = a) (e # es) i else r1 = s1"
  proof (cases "\<exists>x\<in>set es. lo (fst x) = a")
    case True
    with ih obtain i where "r1 = Suc k + i" "last_index (\<lambda>e. lo (fst e) = a) es i" by auto
    then have "r1 = k + Suc i" "last_index (\<lambda>e. lo (fst e) = a) (e # es) (Suc i)"
      by (simp_all add: last_index_Cons_later)
    with True show ?thesis by auto
  next
    case False
    with ih have r: "r1 = ?t1" by auto
    show ?thesis
    proof (cases "lo (fst e) = a")
      case True
      then have "last_index (\<lambda>e. lo (fst e) = a) (e # es) 0"
        using False by (intro last_index_Cons_here) auto
      with True r show ?thesis by auto
    next
      case no: False
      with False r show ?thesis by auto
    qed
  qed
  have two: "if \<exists>x\<in>set (e # es). hi (fst x) = b
      then \<exists>i. r2 = k + i \<and> last_index (\<lambda>e. hi (fst e) = b) (e # es) i else r2 = s2"
  proof (cases "\<exists>x\<in>set es. hi (fst x) = b")
    case True
    with ih obtain i where "r2 = Suc k + i" "last_index (\<lambda>e. hi (fst e) = b) es i" by auto
    then have "r2 = k + Suc i" "last_index (\<lambda>e. hi (fst e) = b) (e # es) (Suc i)"
      by (simp_all add: last_index_Cons_later)
    with True show ?thesis by auto
  next
    case False
    with ih have r: "r2 = ?t2" by auto
    show ?thesis
    proof (cases "hi (fst e) = b")
      case True
      then have "last_index (\<lambda>e. hi (fst e) = b) (e # es) 0"
        using False by (intro last_index_Cons_here) auto
      with True r show ?thesis by auto
    next
      case no: False
      with False r show ?thesis by auto
    qed
  qed
  from one two show ?case by blast
qed

lemma last_index_unique: "last_index P xs i \<Longrightarrow> last_index P xs j \<Longrightarrow> i = j"
  unfolding last_index_def by (metis linorder_neqE_nat)

lemma dim_step_spec:
  assumes "es \<noteq> []"
  shows "\<exists>i1 i2. last_index (\<lambda>e. lo (fst e) = highest_low lo es) es i1
           \<and> last_index (\<lambda>e. hi (fst e) = lowest_high hi es) es i2
           \<and> dim_step lo hi es (ms, s1, s2)
               = (if axis_width lo hi es > 0
                     \<and> (case ms of None \<Rightarrow> True | Some s \<Rightarrow> separation lo hi es > s)
                  then (Some (separation lo hi es), i1, i2) else (ms, s1, s2))"
proof -
  have ne: "map (\<lambda>e. lo (fst e)) es \<noteq> []" "map (\<lambda>e. hi (fst e)) es \<noteq> []"
    using assms by simp_all
  have mx: "py_max (map (\<lambda>e. lo (fst e)) es) = highest_low lo es"
    using py_max_Max[OF ne(1)] by (simp add: highest_low_def)
  have mn: "py_min (map (\<lambda>e. hi (fst e)) es) = lowest_high hi es"
    using py_min_Min[OF ne(2)] by (simp add: lowest_high_def)
  have w: "py_max (map (\<lambda>e. hi (fst e)) es) - py_min (map (\<lambda>e. lo (fst e)) es)
           = axis_width lo hi es"
    using py_max_Max[OF ne(2)] py_min_Min[OF ne(1)] by (simp add: axis_width_def)
  have ex1: "\<exists>e\<in>set es. lo (fst e) = highest_low lo es"
  proof -
    have "Max ((\<lambda>e. lo (fst e)) ` set es) \<in> (\<lambda>e. lo (fst e)) ` set es"
      by (rule Max_in) (use assms in simp_all)
    then obtain e where "e \<in> set es" "Max ((\<lambda>e. lo (fst e)) ` set es) = lo (fst e)"
      by auto
    then show ?thesis unfolding highest_low_def by (intro bexI[of _ e]) simp_all
  qed
  have ex2: "\<exists>e\<in>set es. hi (fst e) = lowest_high hi es"
  proof -
    have "Min ((\<lambda>e. hi (fst e)) ` set es) \<in> (\<lambda>e. hi (fst e)) ` set es"
      by (rule Min_in) (use assms in simp_all)
    then obtain e where "e \<in> set es" "Min ((\<lambda>e. hi (fst e)) ` set es) = hi (fst e)"
      by auto
    then show ?thesis unfolding lowest_high_def by (intro bexI[of _ e]) simp_all
  qed
  obtain r1 r2 where r: "seed_loop lo hi (highest_low lo es) (lowest_high hi es) 0 es (s1, s2)
      = (r1, r2)"
    by (cases "seed_loop lo hi (highest_low lo es) (lowest_high hi es) 0 es (s1, s2)")
  from seed_loop_last[OF r] ex1 ex2
  have l: "last_index (\<lambda>e. lo (fst e) = highest_low lo es) es r1"
      "last_index (\<lambda>e. hi (fst e) = lowest_high hi es) es r2"
    by auto
  have "dim_step lo hi es (ms, s1, s2)
               = (if axis_width lo hi es > 0
                     \<and> (case ms of None \<Rightarrow> True | Some s \<Rightarrow> separation lo hi es > s)
                  then (Some (separation lo hi es), r1, r2) else (ms, s1, s2))"
    unfolding dim_step_def Let_def mx mn w separation_def[symmetric]
    by (simp add: r)
  with l show ?thesis by blast
qed

lemma linear_pick_seeds_spec:
  assumes "es \<noteq> []"
  shows "\<exists>s1 c. linear_pick_seeds es
              = Inr (s1, if s1 = c \<and> length es > 1 then (s1 + 1) mod length es else c)
           \<and> (if axis_width min_lat max_lat es > 0
                  \<and> \<not> (axis_width min_lon max_lon es > 0
                        \<and> separation min_lon max_lon es > separation min_lat max_lat es)
               then last_index (\<lambda>e. min_lat (fst e) = highest_low min_lat es) es s1
                    \<and> last_index (\<lambda>e. max_lat (fst e) = lowest_high max_lat es) es c
               else if axis_width min_lon max_lon es > 0
               then last_index (\<lambda>e. min_lon (fst e) = highest_low min_lon es) es s1
                    \<and> last_index (\<lambda>e. max_lon (fst e) = lowest_high max_lon es) es c
               else s1 = 0 \<and> c = (if length es > 1 then 1 else 0))"
proof -
  define s0 :: nat where "s0 = (if length es > 1 then 1 else 0)"
  obtain i1 i2 where lat:
      "last_index (\<lambda>e. min_lat (fst e) = highest_low min_lat es) es i1"
      "last_index (\<lambda>e. max_lat (fst e) = lowest_high max_lat es) es i2"
      "dim_step min_lat max_lat es (None, 0, s0)
         = (if axis_width min_lat max_lat es > 0
            then (Some (separation min_lat max_lat es), i1, i2) else (None, 0, s0))"
    using dim_step_spec[OF assms, of min_lat max_lat None 0 s0] by auto
  show ?thesis
  proof (cases "axis_width min_lat max_lat es > 0")
    case wlat: True
    have st1: "dim_step min_lat max_lat es (None, 0, s0)
                = (Some (separation min_lat max_lat es), i1, i2)"
      unfolding lat(3) using wlat by simp
    obtain j1 j2 where lon:
        "last_index (\<lambda>e. min_lon (fst e) = highest_low min_lon es) es j1"
        "last_index (\<lambda>e. max_lon (fst e) = lowest_high max_lon es) es j2"
        "dim_step min_lon max_lon es (Some (separation min_lat max_lat es), i1, i2)
           = (if axis_width min_lon max_lon es > 0
                 \<and> separation min_lon max_lon es > separation min_lat max_lat es
              then (Some (separation min_lon max_lon es), j1, j2)
              else (Some (separation min_lat max_lat es), i1, i2))"
      using dim_step_spec[OF assms, of min_lon max_lon "Some (separation min_lat max_lat es)" i1 i2]
      by auto
    show ?thesis
    proof (cases "axis_width min_lon max_lon es > 0
                 \<and> separation min_lon max_lon es > separation min_lat max_lat es")
      case True
      have st2: "dim_step min_lon max_lon es (Some (separation min_lat max_lat es), i1, i2)
                  = (Some (separation min_lon max_lon es), j1, j2)"
        unfolding lon(3) using True by simp
      have eq: "linear_pick_seeds es
              = Inr (j1, if j1 = j2 \<and> length es > 1 then (j1 + 1) mod length es else j2)"
        unfolding linear_pick_seeds_def s0_def[symmetric] st1 st2 using assms by simp
      have sh: "last_index (\<lambda>e. min_lon (fst e) = highest_low min_lon es) es j1
                    \<and> last_index (\<lambda>e. max_lon (fst e) = lowest_high max_lon es) es j2"
        using lon(1,2) by simp
      show ?thesis
        by (rule exI[of _ j1], rule exI[of _ j2], rule conjI, rule eq)
           (use True sh in \<open>simp only: if_True if_False not_True_eq_False simp_thms\<close>)
    next
      case False
      have st2: "dim_step min_lon max_lon es (Some (separation min_lat max_lat es), i1, i2)
                  = (Some (separation min_lat max_lat es), i1, i2)"
        unfolding lon(3) by (simp only: False if_False)
      have eq: "linear_pick_seeds es
              = Inr (i1, if i1 = i2 \<and> length es > 1 then (i1 + 1) mod length es else i2)"
        unfolding linear_pick_seeds_def s0_def[symmetric] st1 st2 using assms by simp
      have sh: "last_index (\<lambda>e. min_lat (fst e) = highest_low min_lat es) es i1
                    \<and> last_index (\<lambda>e. max_lat (fst e) = lowest_high max_lat es) es i2"
        using lat(1,2) by simp
      show ?thesis
        by (rule exI[of _ i1], rule exI[of _ i2], rule conjI, rule eq)
           (use False wlat sh in \<open>simp only: if_True if_False simp_thms\<close>)
    qed
  next
    case nolat: False
    have st1: "dim_step min_lat max_lat es (None, 0, s0) = (None, 0, s0)"
      unfolding lat(3) using nolat by simp
    obtain j1 j2 where lon:
        "last_index (\<lambda>e. min_lon (fst e) = highest_low min_lon es) es j1"
        "last_index (\<lambda>e. max_lon (fst e) = lowest_high max_lon es) es j2"
        "dim_step min_lon max_lon es (None, 0, s0)
           = (if axis_width min_lon max_lon es > 0
              then (Some (separation min_lon max_lon es), j1, j2)
              else (None, 0, s0))"
      using dim_step_spec[OF assms, of min_lon max_lon None 0 s0] by auto
    show ?thesis
    proof (cases "axis_width min_lon max_lon es > 0")
      case True
      have st2: "dim_step min_lon max_lon es (None, 0, s0)
                  = (Some (separation min_lon max_lon es), j1, j2)"
        unfolding lon(3) using True by simp
      have eq: "linear_pick_seeds es
              = Inr (j1, if j1 = j2 \<and> length es > 1 then (j1 + 1) mod length es else j2)"
        unfolding linear_pick_seeds_def s0_def[symmetric] st1 st2 using assms by simp
      have sh: "last_index (\<lambda>e. min_lon (fst e) = highest_low min_lon es) es j1
                    \<and> last_index (\<lambda>e. max_lon (fst e) = lowest_high max_lon es) es j2"
        using lon(1,2) by simp
      show ?thesis
        by (rule exI[of _ j1], rule exI[of _ j2], rule conjI, rule eq)
           (use True nolat sh in \<open>simp only: if_True if_False simp_thms\<close>)
    next
      case False
      have st2: "dim_step min_lon max_lon es (None, 0, s0) = (None, 0, s0)"
        unfolding lon(3) by (simp only: False if_False)
      have eq: "linear_pick_seeds es
              = Inr (0, if 0 = s0 \<and> length es > 1 then (0 + 1) mod length es else s0)"
        unfolding linear_pick_seeds_def s0_def[symmetric] st1 st2 using assms by simp
      show ?thesis
        by (rule exI[of _ 0], rule exI[of _ s0], rule conjI, rule eq)
           (use False nolat in \<open>simp only: if_True if_False simp_thms s0_def\<close>)
    qed
  qed
qed



subsection \<open>A worked example\<close>

lemma example_tree_3:
  "insert_all (RTree_init 2) [station 0 0 1, station 0 1 2, station 0 2 3] = Inr example_tree"
  by code_simp

lemma search_example:
  "search_square example_tree (station 0 0 0) (1/2) = Inr [(station 0 0 1, 0)]"
  by (simp add: search_square_def example_tree_def radians_def intersects_square_def Let_def
        station_def distance_to_same_place)

lemma stale_tree_built:
  "insert_all (RTree_init 2) [station 0 0 1, station 1 0 2, station 2 0 3, station 0 5 4]
     = Inr stale_tree"
  by code_simp

lemma tie_tree_built:
  "insert_all (RTree_init 2) [station 0 (- 1) 1, station 0 1 2, station 0 5 3] = Inr tie_tree"
  by code_simp

lemma antimeridian_tree_built:
  "insert_all (RTree_init 5) [station 0 (- 179) 1] = Inr antimeridian_tree"
  by code_simp

lemma mset_scan_in_square:
  "mset (filter (\<lambda>x. in_square c r (fst x)) (brute_force ps c r))
   = filter_mset (\<lambda>x. snd x \<le> r)
       (image_mset (\<lambda>p. (p, distance_to c p)) (filter_mset (in_square c r) (mset ps)))"
proof -
  have "image_mset (\<lambda>p. (p, distance_to c p)) (filter_mset (in_square c r) (mset ps))
        = filter_mset (\<lambda>x. in_square c r (fst x)) (image_mset (\<lambda>p. (p, distance_to c p)) (mset ps))"
    using image_mset_filter_mset_swap[of "\<lambda>p. (p, distance_to c p)" "\<lambda>x. in_square c r (fst x)"
        "mset ps"] by simp
  then show ?thesis
    by (simp add: brute_force_def filter_filter_mset conj_commute)
qed

lemma tie_distances:
  "distance_to (station 0 0 0) (station 0 (- 1) 1) = 6371 * pi / 180"
  "distance_to (station 0 0 0) (station 0 1 2) = 6371 * pi / 180"
  "distance_to (station 0 0 0) (station 0 5 3) = 6371 * pi / 36"
  by (simp_all add: equator_distance station_def)

lemma antimeridian_distance:
  "distance_to (station 0 179 0) (station 0 (- 179) 1) = 6371 * pi / 90"
  by (simp add: equator_distance_wrap station_def)

lemma pi_bounds:
  "6371 * pi / 180 \<le> 200" "\<not> 6371 * pi / 36 \<le> 200" "6371 * pi / 90 \<le> 300"
  using pi_ge_two pi_less_4 by simp_all

lemma tie_search:
  "search_square tie_tree (station 0 0 0) 200
     = Inr [(station 0 1 2, 6371 * pi / 180), (station 0 (- 1) 1, 6371 * pi / 180)]"
proof -
  have cands: "search_square_recursive (root_node tie_tree) (lat (station 0 0 0))
        (lon (station 0 0 0)) (200 / 111) (200 / (111 * cos (radians (lat (station 0 0 0)))))
        (station 0 0 0)
      = [(station 0 1 2, distance_to (station 0 0 0) (station 0 1 2)),
         (station 0 (- 1) 1, distance_to (station 0 0 0) (station 0 (- 1) 1))]"
    by (simp add: tie_tree_def station_def radians_def intersects_square_def Let_def)
  have "cos (radians (lat (station 0 0 0))) \<noteq> 0" by (simp add: station_def radians_def)
  then show ?thesis
    unfolding search_square_def Let_def cands tie_distances
    using pi_bounds(1) by simp
qed

lemma tie_scan:
  "brute_force [station 0 (- 1) 1, station 0 1 2, station 0 5 3] (station 0 0 0) 200
     = [(station 0 (- 1) 1, 6371 * pi / 180), (station 0 1 2, 6371 * pi / 180)]"
  unfolding brute_force_def list.map tie_distances
  using pi_bounds(1,2) by simp

lemma antimeridian_search:
  "search_square antimeridian_tree (station 0 179 0) 300 = Inr []"
  by (simp add: search_square_def antimeridian_tree_def station_def radians_def
        intersects_square_def Let_def)

lemma antimeridian_scan:
  "brute_force [station 0 (- 179) 1] (station 0 179 0) 300
     = [(station 0 (- 179) 1, 6371 * pi / 90)]"
  unfolding brute_force_def list.map antimeridian_distance
  using pi_bounds(3) by simp

lemma covered_examples:
  "covered (root_node tie_tree)" "covered (root_node antimeridian_tree)"
  by (simp_all add: covered_def tie_tree_def antimeridian_tree_def mbr_contains_def
        contains_point_def station_def)

section \<open>The claims\<close>

text \<open>
  C4. For \<open>max_entries \<ge> 2\<close>, after any sequence of insertions into a fresh tree no node
  holds more than \<open>max_entries\<close> entries.  The overflow test is strict: a leaf is split
  exactly when the append takes it past \<open>max_entries\<close>, and a leaf or a parent that
  reaches exactly \<open>max_entries\<close> entries is kept unsplit.
\<close>

theorem no_node_exceeds_max_entries:
  assumes "2 \<le> M"
  shows "(\<exists>t. insert_all (RTree_init M) ps = Inr t \<and> bounded M (root_node t))
       \<and> ((\<exists>n1 n2. ins M p (Leaf mb es) = Inr (Split n1 n2)) \<longleftrightarrow> int (length es) + 1 > M)
       \<and> (int (length es) + 1 = M \<longrightarrow>
            ins M p (Leaf mb es)
              = Inr (NoSplit (Leaf (update_mbr (es @ [(from_point p, p)])) (es @ [(from_point p, p)]))))
       \<and> (i < length cs \<and> int (length cs) + 1 = M \<and> mbr n1 = Some m1 \<and> mbr n2 = Some m2 \<longrightarrow>
            handle_overflow_parent M cs i n1 n2
              = Inr (NoSplit (Inner (update_mbr (drop_entry i cs @ [(m1, n1), (m2, n2)]))
                                    (drop_entry i cs @ [(m1, n1), (m2, n2)]))))"
proof -
  let ?Q = "\<lambda>t. max_entries t = M \<and> bounded M (root_node t)"
  have init: "inner_nonempty (root_node (RTree_init M :: 'a RTree))" "?Q (RTree_init M :: 'a RTree)"
    using assms by (simp_all add: RTree_init_def bounded_Leaf)
  have "\<exists>t'. insert_all (RTree_init M) ps = Inr t' \<and> ?Q t' \<and> inner_nonempty (root_node t')"
  proof (rule insert_all_invariant[where Q = ?Q, OF init])
    fix t :: "'a RTree" and p t'
    assume "inner_nonempty (root_node t)" "?Q t" "insert_point t p = Inr t'"
    then show "?Q t'"
      using insert_point_bounded[of t p t'] insert_point_max_entries[of t p t'] assms by auto
  qed
  then have a: "\<exists>t. insert_all (RTree_init M) ps = Inr t \<and> bounded M (root_node t)" by blast
  have b: "(\<exists>n1 n2. ins M p (Leaf mb es) = Inr (Split n1 n2)) \<longleftrightarrow> int (length es) + 1 > M"
    by (cases rule: ins_leaf_cases[of es M p mb]) auto
  have c: "int (length es) + 1 = M \<longrightarrow>
            ins M p (Leaf mb es)
              = Inr (NoSplit (Leaf (update_mbr (es @ [(from_point p, p)])) (es @ [(from_point p, p)])))"
    by (cases rule: ins_leaf_cases[of es M p mb]) auto
  have d: "i < length cs \<and> int (length cs) + 1 = M \<and> mbr n1 = Some m1 \<and> mbr n2 = Some m2 \<longrightarrow>
            handle_overflow_parent M cs i n1 n2
              = Inr (NoSplit (Inner (update_mbr (drop_entry i cs @ [(m1, n1), (m2, n2)]))
                                    (drop_entry i cs @ [(m1, n1), (m2, n2)])))"
    by (auto simp: handle_overflow_parent_def length_drop_entry Let_def)
  from a b c d show ?thesis by blast
qed


theorem no_node_exceeds_max_entries_witness:
  "(2::int) \<le> 2
   \<and> (\<exists>t. insert_all (RTree_init 2) [station 0 0 1, station 0 1 2, station 0 2 3] = Inr t
          \<and> bounded 2 (root_node t))
   \<and> int (length [(from_point (station 0 0 1), station 0 0 1)]) + 1 = 2
   \<and> ins 2 (station 0 1 2) (Leaf None [(from_point (station 0 0 1), station 0 0 1)])
       = Inr (NoSplit (Leaf (Some \<lparr>min_lat = 0, max_lat = 0, min_lon = 0, max_lon = 1\<rparr>)
                [(from_point (station 0 0 1), station 0 0 1),
                 (from_point (station 0 1 2), station 0 1 2)]))"
proof -
  have h: "(2::int) \<le> 2" by simp
  note th = no_node_exceeds_max_entries[OF h, of "[station 0 0 1, station 0 1 2, station 0 2 3]"
          "station 0 1 2" None "[(from_point (station 0 0 1), station 0 0 1)]"]
  have len: "int (length [(from_point (station 0 0 1), station 0 0 1)]) + 1 = 2" by simp
  have upd: "update_mbr ([(from_point (station 0 0 1), station 0 0 1)]
                           @ [(from_point (station 0 1 2), station 0 1 2)])
             = Some \<lparr>min_lat = 0, max_lat = 0, min_lon = 0, max_lon = 1\<rparr>"
    by (simp add: from_point_def station_def expand_to_include_mbr_def)
  from th have a: "\<exists>t. insert_all (RTree_init 2) [station 0 0 1, station 0 1 2, station 0 2 3] = Inr t
          \<and> bounded 2 (root_node t)"
    by (rule conjunct1)
  from th[THEN conjunct2, THEN conjunct2, THEN conjunct1] len have c: "ins 2 (station 0 1 2) (Leaf None [(from_point (station 0 0 1), station 0 0 1)])
       = Inr (NoSplit (Leaf (Some \<lparr>min_lat = 0, max_lat = 0, min_lon = 0, max_lon = 1\<rparr>)
                [(from_point (station 0 0 1), station 0 0 1),
                 (from_point (station 0 1 2), station 0 1 2)]))"
    unfolding upd by simp
  from h a len c show ?thesis by (intro conjI)
qed



text \<open>
  C5. After any sequence of insertions into a fresh tree, whatever \<open>max_entries\<close> is, all
  leaves lie at one depth \<open>h\<close>, and \<open>get_height\<close> reports \<open>h + 1\<close>.  A further insertion
  keeps that depth, or raises it by one, and then the root is a new node over the two
  halves of a split of the old root.
\<close>

theorem leaves_at_same_depth:
  "\<exists>t h. insert_all (RTree_init M) ps = Inr t
         \<and> balanced h (root_node t)
         \<and> get_height_recursive (root_node t) = Suc h
         \<and> (\<exists>t'. insert_point t p = Inr t'
               \<and> (balanced h (root_node t')
                   \<or> (balanced (Suc h) (root_node t')
                       \<and> (\<exists>n1 n2. ins (max_entries t) p (root_node t) = Inr (Split n1 n2)
                             \<and> map snd (child_entries (root_node t')) = [n1, n2]))))"
proof -
  let ?Q = "\<lambda>t. \<exists>h. height_is h (root_node t)"
  have init: "inner_nonempty (root_node (RTree_init M :: 'a RTree))" "?Q (RTree_init M :: 'a RTree)"
    by (simp_all add: RTree_init_def)
  have "\<exists>t'. insert_all (RTree_init M) ps = Inr t' \<and> ?Q t' \<and> inner_nonempty (root_node t')"
  proof (rule insert_all_invariant[where Q = ?Q, OF init])
    fix t :: "'a RTree" and p t'
    assume "inner_nonempty (root_node t)" "?Q t" "insert_point t p = Inr t'"
    then show "?Q t'"
      using insert_point_height[of t _ p t'] by blast
  qed
  then obtain t h where t: "insert_all (RTree_init M) ps = Inr t" "height_is h (root_node t)"
      "inner_nonempty (root_node t)"
    by blast
  obtain t' where t': "insert_point t p = Inr t'"
      "height_is h (root_node t')
         \<or> (height_is (Suc h) (root_node t')
              \<and> (\<exists>n1 n2. ins (max_entries t) p (root_node t) = Inr (Split n1 n2)
                    \<and> map snd (child_entries (root_node t')) = [n1, n2]))"
    using insert_point_root_cases[OF t(3,2), of p] by (elim exE conjE) (rule that)
  have d: "balanced h (root_node t')
         \<or> (balanced (Suc h) (root_node t')
              \<and> (\<exists>n1 n2. ins (max_entries t) p (root_node t) = Inr (Split n1 n2)
                    \<and> map snd (child_entries (root_node t')) = [n1, n2]))"
    using t'(2) height_is_leaf_depths[of h "root_node t'"]
      height_is_leaf_depths[of "Suc h" "root_node t'"] by blast
  have e: "\<exists>t'. insert_point t p = Inr t'
               \<and> (balanced h (root_node t')
                   \<or> (balanced (Suc h) (root_node t')
                       \<and> (\<exists>n1 n2. ins (max_entries t) p (root_node t) = Inr (Split n1 n2)
                             \<and> map snd (child_entries (root_node t')) = [n1, n2])))"
    by (rule exI[of _ t'], rule conjI, rule t'(1), rule d)
  show ?thesis
    by (rule exI[of _ t], rule exI[of _ h], intro conjI, rule t(1),
        rule height_is_leaf_depths[OF t(2)], rule height_is_get_height[OF t(2,3)], rule e)
qed


text \<open>
  C9. For \<open>max_entries \<ge> 2\<close>, after inserting the points \<open>ps\<close> into a fresh tree
  \<open>count_nodes\<close> reports \<open>length ps\<close> as \<open>total_entries\<close>, and the tree stores exactly the
  inserted points; a split of an overflowing entry list hands every entry to exactly one
  of the two new nodes.
\<close>

theorem total_entries_counts_insertions:
  assumes "2 \<le> M"
  shows "(\<exists>t. insert_all (RTree_init M) ps = Inr t
            \<and> total_entries (count_nodes t) = length ps
            \<and> mset (points_of (root_node t)) = mset ps)
       \<and> (int (length es) > M \<longrightarrow>
            (\<exists>a b. split_entries es = Inr (a, b) \<and> mset a + mset b = mset es))"
proof -
  have "1 \<le> M" using assms by simp
  from insert_all_points[OF this, of ps] obtain t where t: "insert_all (RTree_init M) ps = Inr t"
      "mset (points_of (root_node t)) = mset ps"
    by blast
  have "length (points_of (root_node t)) = length ps"
    using t(2) by (metis size_mset)
  then have a: "\<exists>t. insert_all (RTree_init M) ps = Inr t
            \<and> total_entries (count_nodes t) = length ps
            \<and> mset (points_of (root_node t)) = mset ps"
    using t by (auto simp: count_nodes_total)
  have b: "int (length es) > M \<longrightarrow>
            (\<exists>a b. split_entries es = Inr (a, b) \<and> mset a + mset b = mset es)"
  proof
    assume "int (length es) > M"
    then have gt: "length es > 1" using assms by linarith
    then have ne: "es \<noteq> []" by auto
    obtain a b where ab: "split_entries es = Inr (a, b)"
      using split_entries_total[OF ne] by blast
    from split_entries_props(5)[OF ab ne gt] ab
    show "\<exists>a b. split_entries es = Inr (a, b) \<and> mset a + mset b = mset es"
      by blast
  qed
  from a b show ?thesis by blast
qed



theorem total_entries_counts_insertions_witness:
  "(2::int) \<le> 2
   \<and> (\<exists>t. insert_all (RTree_init 2) [station 0 0 1, station 0 1 2, station 0 2 3] = Inr t
          \<and> total_entries (count_nodes t) = length [station 0 0 1, station 0 1 2, station 0 2 3]
          \<and> mset (points_of (root_node t)) = mset [station 0 0 1, station 0 1 2, station 0 2 3])
   \<and> int (length [(from_point (station 0 0 1), station 0 0 1),
                   (from_point (station 0 1 2), station 0 1 2),
                   (from_point (station 0 2 3), station 0 2 3)]) > 2
   \<and> (\<exists>a b. split_entries [(from_point (station 0 0 1), station 0 0 1),
                             (from_point (station 0 1 2), station 0 1 2),
                             (from_point (station 0 2 3), station 0 2 3)] = Inr (a, b)
          \<and> mset a + mset b = mset [(from_point (station 0 0 1), station 0 0 1),
                                     (from_point (station 0 1 2), station 0 1 2),
                                     (from_point (station 0 2 3), station 0 2 3)])"
proof -
  have h: "(2::int) \<le> 2" by simp
  note th = total_entries_counts_insertions[OF h,
      of "[station 0 0 1, station 0 1 2, station 0 2 3]"
         "[(from_point (station 0 0 1), station 0 0 1),
           (from_point (station 0 1 2), station 0 1 2),
           (from_point (station 0 2 3), station 0 2 3)]"]
  have len: "int (length [(from_point (station 0 0 1), station 0 0 1),
                   (from_point (station 0 1 2), station 0 1 2),
                   (from_point (station 0 2 3), station 0 2 3)]) > 2"
    by simp
  note a = th[THEN conjunct1]
  note b = th[THEN conjunct2, THEN mp, OF len]
  from h a len b show ?thesis by (intro conjI)
qed

text \<open>
  C10. \<open>min_entries\<close> is set to \<open>max(2, max_entries // 2)\<close> by the constructor and is read
  by nothing: \<open>insert\<close> and \<open>search_square\<close> on a tree with any other value in that field
  do the same, and the split works on the entry list alone.  No minimum fill holds: with
  \<open>max_entries = 2\<close> the third insertion splits the root leaf into a node of two entries and
  a node of one entry, below \<open>min_entries = 2\<close>.
\<close>

theorem min_entries_never_read:
  "min_entries (RTree_init n) = max 2 (n div 2)
   \<and> insert_point (t\<lparr>min_entries := k\<rparr>) p
       = map_sum id (\<lambda>t'. t'\<lparr>min_entries := k\<rparr>) (insert_point t p)
   \<and> search_square (t\<lparr>min_entries := k\<rparr>) c r = search_square t c r
   \<and> (\<exists>t' a b. insert_all (RTree_init 2) [station 0 0 1, station 0 1 2, station 0 2 3] = Inr t'
          \<and> ins 2 (station 0 2 3)
               (Leaf (Some \<lparr>min_lat = 0, max_lat = 0, min_lon = 0, max_lon = 1\<rparr>)
                     [(from_point (station 0 0 1), station 0 0 1),
                      (from_point (station 0 1 2), station 0 1 2)]) = Inr (Split a b)
          \<and> b \<in> set (nodes (root_node t'))
          \<and> num_entries b = 1 \<and> int (num_entries b) < min_entries t')"
proof -
  have a: "min_entries (RTree_init n) = max 2 (n div 2)"
    by (simp add: RTree_init_def)
  have b: "insert_point (t\<lparr>min_entries := k\<rparr>) p
       = map_sum id (\<lambda>t'. t'\<lparr>min_entries := k\<rparr>) (insert_point t p)"
    by (auto simp: insert_point_def split: sum.splits ins_result.splits)
  have c: "search_square (t\<lparr>min_entries := k\<rparr>) c r = search_square t c r"
    by (simp add: search_square_def)
  have s: "ins 2 (station 0 2 3)
               (Leaf (Some \<lparr>min_lat = 0, max_lat = 0, min_lon = 0, max_lon = 1\<rparr>)
                     [(from_point (station 0 0 1), station 0 0 1),
                      (from_point (station 0 1 2), station 0 1 2)])
           = Inr (Split
               (Leaf (Some \<lparr>min_lat = 0, max_lat = 0, min_lon = 1, max_lon = 2\<rparr>)
                [(\<lparr>min_lat = 0, max_lat = 0, min_lon = 2, max_lon = 2\<rparr>, station 0 2 3),
                 (\<lparr>min_lat = 0, max_lat = 0, min_lon = 1, max_lon = 1\<rparr>, station 0 1 2)])
               (Leaf (Some \<lparr>min_lat = 0, max_lat = 0, min_lon = 0, max_lon = 0\<rparr>)
                [(\<lparr>min_lat = 0, max_lat = 0, min_lon = 0, max_lon = 0\<rparr>, station 0 0 1)]))"
    by code_simp
  have d: "\<exists>t' a b. insert_all (RTree_init 2) [station 0 0 1, station 0 1 2, station 0 2 3] = Inr t'
          \<and> ins 2 (station 0 2 3)
               (Leaf (Some \<lparr>min_lat = 0, max_lat = 0, min_lon = 0, max_lon = 1\<rparr>)
                     [(from_point (station 0 0 1), station 0 0 1),
                      (from_point (station 0 1 2), station 0 1 2)]) = Inr (Split a b)
          \<and> b \<in> set (nodes (root_node t'))
          \<and> num_entries b = 1 \<and> int (num_entries b) < min_entries t'"
    unfolding example_tree_3 s by (simp add: example_tree_def)
  from a b c d show ?thesis by blast
qed



text \<open>
  C3. Whatever the tree, every pair \<open>(point, distance)\<close> that \<open>search_square\<close> returns has
  as distance the haversine distance with \<open>R = 6371\<close> between the point and the centre,
  that distance is at most \<open>radiusKm\<close>, the point is stored in the tree, the result is
  ascending by distance, and it is the stable sort by distance of the candidates that
  passed the radius test.
\<close>

theorem search_square_results:
  assumes "search_square t c r = Inr res"
  shows "(\<forall>x\<in>set res. snd x = 6371 * (2 * arcsin (sqrt (hav_a (fst x) c))) \<and> snd x \<le> r
             \<and> fst x \<in> set (points_of (root_node t)))
       \<and> sorted (map snd res)
       \<and> res = sort_key snd (filter (\<lambda>x. snd x \<le> r)
                 (search_square_recursive (root_node t) (lat c) (lon c) (r / 111)
                    (r / (111 * cos (radians (lat c)))) c))"
proof -
  let ?cands = "search_square_recursive (root_node t) (lat c) (lon c) (r / 111)
                    (r / (111 * cos (radians (lat c)))) c"
  have res: "res = sort_key snd (filter (\<lambda>x. snd x \<le> r) ?cands)"
    using assms by (auto simp: search_square_def Let_def split: if_splits)
  have cand: "snd x = distance_to c (fst x) \<and> fst x \<in> set (points_of (root_node t))"
    if "x \<in> set ?cands" for x
  proof -
    have "x \<in># mset (map (\<lambda>p. (p, distance_to c p))
            (filter (in_rect (lat c) (lon c) (r / 111) (r / (111 * cos (radians (lat c)))))
               (points_of (root_node t))))"
      using that search_recursive_sound[of "root_node t" "lat c" "lon c" "r / 111"
          "r / (111 * cos (radians (lat c)))" c]
      by (meson in_multiset_in_set mset_subset_eqD)
    then show ?thesis by auto
  qed
  have "snd x = 6371 * (2 * arcsin (sqrt (hav_a (fst x) c))) \<and> snd x \<le> r
             \<and> fst x \<in> set (points_of (root_node t))" if "x \<in> set res" for x
  proof -
    from that have x: "x \<in> set ?cands" "snd x \<le> r" unfolding res by auto
    have "distance_to c (fst x) = 6371 * (2 * arcsin (sqrt (hav_a (fst x) c)))"
      unfolding distance_to_sym[of c "fst x"] by (simp add: distance_to_def)
    with cand[OF x(1)] x(2) show ?thesis by simp
  qed
  moreover have "sorted (map snd res)" unfolding res by (rule sorted_sort_key)
  ultimately show ?thesis using res by blast
qed


theorem search_square_results_witness:
  "search_square example_tree (station 0 0 0) (1/2) = Inr [(station 0 0 1, 0)]
   \<and> snd (station 0 0 1, 0::real) = 6371 * (2 * arcsin (sqrt (hav_a (fst (station 0 0 1, 0::real)) (station 0 0 0))))
   \<and> snd (station 0 0 1, 0::real) \<le> 1/2
   \<and> fst (station 0 0 1, 0::real) \<in> set (points_of (root_node example_tree))
   \<and> sorted (map snd [(station 0 0 1, 0::real)])"
proof -
  note th = search_square_results[OF search_example]
  have m: "(station 0 0 1, 0::real) \<in> set [(station 0 0 1, 0::real)]" by simp
  note a = th[THEN conjunct1, THEN bspec, OF m]
  note b = th[THEN conjunct2, THEN conjunct1]
  from search_example a b show ?thesis by (intro conjI) blast+
qed







text \<open>
  C2, on the code.  An insertion that does not split recomputes the cached MBR of the leaf
  only; the entry MBR in the parent and the cached MBRs of the ancestors stay as they were.
  With \<open>max_entries = 2\<close>, after the points (0,0), (1,0), (2,0) and (0,5) the root still
  caches latitude 0..2, longitude 0..0, which does not contain the stored point (0,5), and
  a search of radius 1 km centred on that point is pruned at the root and returns nothing.
\<close>

theorem stale_cached_mbr:
  "insert_all (RTree_init 2) [station 0 0 1, station 1 0 2, station 2 0 3, station 0 5 4]
     = Inr stale_tree
   \<and> mbr (root_node stale_tree) = Some \<lparr>min_lat = 0, max_lat = 2, min_lon = 0, max_lon = 0\<rparr>
   \<and> station 0 5 4 \<in> set (points_of (root_node stale_tree))
   \<and> \<not> contains_point \<lparr>min_lat = 0, max_lat = 2, min_lon = 0, max_lon = 0\<rparr> (station 0 5 4)
   \<and> \<not> covered (root_node stale_tree)
   \<and> distance_to (station 0 5 0) (station 0 5 4) = 0
   \<and> search_square stale_tree (station 0 5 0) 1 = Inr []"
proof -
  have a: "mbr (root_node stale_tree) = Some \<lparr>min_lat = 0, max_lat = 2, min_lon = 0, max_lon = 0\<rparr>"
    by (simp add: stale_tree_def)
  have b: "station 0 5 4 \<in> set (points_of (root_node stale_tree))"
    by (simp add: stale_tree_def)
  have c: "\<not> contains_point \<lparr>min_lat = 0, max_lat = 2, min_lon = 0, max_lon = 0\<rparr> (station 0 5 4)"
    by (simp add: contains_point_def station_def)
  have d: "\<not> covered (root_node stale_tree)"
    using covered_root[of "root_node stale_tree" "station 0 5 4"] a b c
    by (auto simp: mbr_contains_def)
  have e: "distance_to (station 0 5 0) (station 0 5 4) = 0"
    by (rule distance_to_same_place) (simp_all add: station_def)
  have f: "search_square stale_tree (station 0 5 0) 1 = Inr []"
    by (simp add: search_square_def stale_tree_def station_def intersects_square_def Let_def
          radians_def)
  from stale_tree_built a b c d e f show ?thesis by (intro conjI)
qed



text \<open>
  C1, as the code has it by design.  For \<open>max_entries \<ge> 1\<close>, the points \<open>ps\<close> inserted into a
  fresh tree and any query on which \<open>search_square\<close> returns: the result is ascending by
  distance, and every returned pair is a pair of the brute-force scan whose point lies in
  the candidate rectangle of the query, no more often than the scan has it.  Where every
  cached MBR of the tree contains the points below it, the result has exactly the pairs of
  the scan that lie in the candidate rectangle, each as often as the scan, with the same
  sequence of distances; points at equal distance may come in another order.
\<close>

theorem search_square_scan_in_rectangle:
  assumes "1 \<le> M" "insert_all (RTree_init M) ps = Inr t" "search_square t c r = Inr res"
  shows "sorted (map snd res)
       \<and> mset res \<subseteq># mset (filter (\<lambda>x. in_square c r (fst x)) (brute_force ps c r))
       \<and> (covered (root_node t) \<longrightarrow>
            mset res = mset (filter (\<lambda>x. in_square c r (fst x)) (brute_force ps c r))
            \<and> map snd res = map snd (filter (\<lambda>x. in_square c r (fst x)) (brute_force ps c r)))"
proof -
  let ?f = "\<lambda>p. (p, distance_to c p)"
  let ?scan = "filter (\<lambda>x. in_square c r (fst x)) (brute_force ps c r)"
  let ?cands = "search_square_recursive (root_node t) (lat c) (lon c) (r / 111)
                    (r / (111 * cos (radians (lat c)))) c"
  have pts: "mset (points_of (root_node t)) = mset ps"
    using insert_all_points[OF assms(1), of ps] assms(2) by auto
  have res: "res = sort_key snd (filter (\<lambda>x. snd x \<le> r) ?cands)"
    using assms(3) by (auto simp: search_square_def Let_def split: if_splits)
  have sorted_res: "sorted (map snd res)" unfolding res by (rule sorted_sort_key)
  have all: "mset (map ?f (filter (in_square c r) (points_of (root_node t))))
             = image_mset ?f (filter_mset (in_square c r) (mset ps))"
    using pts by (metis mset_filter mset_map)
  have "mset ?cands \<subseteq># mset (map ?f (filter (in_square c r) (points_of (root_node t))))"
    unfolding in_square_def[abs_def] by (rule search_recursive_sound)
  then have "filter_mset (\<lambda>x. snd x \<le> r) (mset ?cands)
             \<subseteq># filter_mset (\<lambda>x. snd x \<le> r) (image_mset ?f (filter_mset (in_square c r) (mset ps)))"
    unfolding all by (rule multiset_filter_mono)
  then have sub: "mset res \<subseteq># mset ?scan"
    unfolding res mset_scan_in_square by simp
  have eq: "mset res = mset ?scan \<and> map snd res = map snd ?scan" if "covered (root_node t)"
  proof -
    have "?cands = map ?f (filter (in_square c r) (points_of (root_node t)))"
      unfolding in_square_def[abs_def] by (rule search_recursive_complete[OF that])
    then have "mset ?cands = image_mset ?f (filter_mset (in_square c r) (mset ps))"
      using all by simp
    then have m: "mset res = mset ?scan"
      unfolding res mset_scan_in_square by simp
    have "sorted (map snd (brute_force ps c r))"
      unfolding brute_force_def by (rule sorted_sort_key)
    then have "sorted (map snd ?scan)" by (rule sorted_filter)
    moreover have "mset (map snd res) = mset (map snd ?scan)" using m by (metis mset_map)
    ultimately have "map snd res = map snd ?scan"
      using sorted_res by (metis properties_for_sort)
    with m show ?thesis by simp
  qed
  from sorted_res sub eq show ?thesis by blast
qed


theorem search_square_scan_in_rectangle_witness:
  "(1::int) \<le> 2
   \<and> insert_all (RTree_init 2) [station 0 (- 1) 1, station 0 1 2, station 0 5 3] = Inr tie_tree
   \<and> search_square tie_tree (station 0 0 0) 200
       = Inr [(station 0 1 2, 6371 * pi / 180), (station 0 (- 1) 1, 6371 * pi / 180)]
   \<and> covered (root_node tie_tree)
   \<and> sorted (map snd [(station 0 1 2, 6371 * pi / 180), (station 0 (- 1) 1, 6371 * pi / 180)])
   \<and> mset [(station 0 1 2, 6371 * pi / 180), (station 0 (- 1) 1, 6371 * pi / 180)]
       = mset (filter (\<lambda>x. in_square (station 0 0 0) 200 (fst x))
                 (brute_force [station 0 (- 1) 1, station 0 1 2, station 0 5 3] (station 0 0 0) 200))
   \<and> map snd [(station 0 1 2, 6371 * pi / 180), (station 0 (- 1) 1, 6371 * pi / 180)]
       = map snd (filter (\<lambda>x. in_square (station 0 0 0) 200 (fst x))
                 (brute_force [station 0 (- 1) 1, station 0 1 2, station 0 5 3] (station 0 0 0) 200))"
proof -
  have h: "(1::int) \<le> 2" by simp
  note th = search_square_scan_in_rectangle[OF h tie_tree_built tie_search]
  note a = th[THEN conjunct1]
  note b = th[THEN conjunct2, THEN conjunct2, THEN mp, OF covered_examples(1)]
  from h tie_tree_built tie_search covered_examples(1) a b[THEN conjunct1] b[THEN conjunct2]
  show ?thesis by (intro conjI)
qed

text \<open>
  C1, as the specification states it, fails on trees all of whose cached MBRs are exact.
  A station at longitude -179 is 222 km from a centre at longitude 179 on the equator, so
  the scan with radius 300 km returns it, but it lies outside the candidate rectangle, which
  does not wrap around the antimeridian, and \<open>search_square\<close> returns nothing.  Two stations
  one degree west and one degree east of the centre are at the same distance; the scan
  returns them in insertion order, \<open>search_square\<close> in the order of the tree walk, which the
  split has reversed.
\<close>

theorem search_square_differs_from_scan:
  "insert_all (RTree_init 5) [station 0 (- 179) 1] = Inr antimeridian_tree
   \<and> covered (root_node antimeridian_tree)
   \<and> search_square antimeridian_tree (station 0 179 0) 300 = Inr []
   \<and> brute_force [station 0 (- 179) 1] (station 0 179 0) 300
       = [(station 0 (- 179) 1, 6371 * pi / 90)]
   \<and> insert_all (RTree_init 2) [station 0 (- 1) 1, station 0 1 2, station 0 5 3] = Inr tie_tree
   \<and> covered (root_node tie_tree)
   \<and> search_square tie_tree (station 0 0 0) 200
       = Inr [(station 0 1 2, 6371 * pi / 180), (station 0 (- 1) 1, 6371 * pi / 180)]
   \<and> brute_force [station 0 (- 1) 1, station 0 1 2, station 0 5 3] (station 0 0 0) 200
       = [(station 0 (- 1) 1, 6371 * pi / 180), (station 0 1 2, 6371 * pi / 180)]"
  using antimeridian_tree_built covered_examples(2) antimeridian_search antimeridian_scan
    tie_tree_built covered_examples(1) tie_search tie_scan
  by (intro conjI)


text \<open>
  C6, as the code has it.  On a list of at least two entries the seeds are two different
  valid indices.  The axis is latitude when its width is positive, unless longitude has
  positive width and a strictly greater normalised separation; it is longitude when only
  longitude has positive width or its separation is strictly greater; on that axis the
  first seed is the last entry that reaches the highest low side, the second seed is the
  last entry that reaches the lowest high side, or the index after the first seed
  (cyclically) when both are the same entry.  When neither width is positive the seeds are
  the entries 0 and 1.  On a list of one entry both seeds are the index 0.
\<close>

theorem linear_pick_seeds_axis:
  assumes "es \<noteq> []"
  shows "(length es = 1 \<longrightarrow> linear_pick_seeds es = Inr (0, 0))
       \<and> (2 \<le> length es \<longrightarrow>
            (\<exists>s1 s2. linear_pick_seeds es = Inr (s1, s2)
               \<and> s1 < length es \<and> s2 < length es \<and> s1 \<noteq> s2
               \<and> (if axis_width min_lat max_lat es > 0
                      \<and> \<not> (axis_width min_lon max_lon es > 0
                            \<and> separation min_lon max_lon es > separation min_lat max_lat es)
                   then seeds_on min_lat max_lat es s1 s2
                   else if axis_width min_lon max_lon es > 0
                   then seeds_on min_lon max_lon es s1 s2
                   else s1 = 0 \<and> s2 = 1)))"
proof -
  obtain s1 c where sp: "linear_pick_seeds es
              = Inr (s1, if s1 = c \<and> length es > 1 then (s1 + 1) mod length es else c)"
      "if axis_width min_lat max_lat es > 0
                  \<and> \<not> (axis_width min_lon max_lon es > 0
                        \<and> separation min_lon max_lon es > separation min_lat max_lat es)
               then last_index (\<lambda>e. min_lat (fst e) = highest_low min_lat es) es s1
                    \<and> last_index (\<lambda>e. max_lat (fst e) = lowest_high max_lat es) es c
               else if axis_width min_lon max_lon es > 0
               then last_index (\<lambda>e. min_lon (fst e) = highest_low min_lon es) es s1
                    \<and> last_index (\<lambda>e. max_lon (fst e) = lowest_high max_lon es) es c
               else s1 = 0 \<and> c = (if length es > 1 then 1 else 0)"
    using linear_pick_seeds_spec[OF assms] by blast
  have one: "linear_pick_seeds es = Inr (0, 0)" if "length es = 1"
  proof -
    have "s1 < 1 \<and> c < 1"
      using sp(2) that by (auto simp: last_index_def split: if_splits)
    then show ?thesis using sp(1) that by simp
  qed
  have two: "\<exists>s1 s2. linear_pick_seeds es = Inr (s1, s2)
               \<and> s1 < length es \<and> s2 < length es \<and> s1 \<noteq> s2
               \<and> (if axis_width min_lat max_lat es > 0
                      \<and> \<not> (axis_width min_lon max_lon es > 0
                            \<and> separation min_lon max_lon es > separation min_lat max_lat es)
                   then seeds_on min_lat max_lat es s1 s2
                   else if axis_width min_lon max_lon es > 0
                   then seeds_on min_lon max_lon es s1 s2
                   else s1 = 0 \<and> s2 = 1)" if "2 \<le> length es"
  proof -
    let ?s2 = "if s1 = c then (s1 + 1) mod length es else c"
    have gt: "length es > 1" using that by simp
    have eq: "linear_pick_seeds es = Inr (s1, ?s2)" using sp(1) gt by simp
    obtain a b where r: "linear_pick_seeds es = Inr (a, b)" "a < length es" "b < length es"
        "a \<noteq> b"
      using linear_pick_seeds_range[OF assms] gt by blast
    with eq have ab: "a = s1" "b = ?s2" by simp_all
    have shape: "if axis_width min_lat max_lat es > 0
                      \<and> \<not> (axis_width min_lon max_lon es > 0
                            \<and> separation min_lon max_lon es > separation min_lat max_lat es)
                   then seeds_on min_lat max_lat es s1 ?s2
                   else if axis_width min_lon max_lon es > 0
                   then seeds_on min_lon max_lon es s1 ?s2
                   else s1 = 0 \<and> ?s2 = 1"
      using sp(2) gt unfolding seeds_on_def by (auto split: if_splits)
    show ?thesis
      by (rule exI[of _ s1], rule exI[of _ ?s2]) (use eq r ab shape in simp)
  qed
  from one two show ?thesis by blast
qed

theorem linear_pick_seeds_axis_witness:
  "[(from_point (station 0 0 1), station 0 0 1), (from_point (station 0 1 2), station 0 1 2),
    (from_point (station 0 2 3), station 0 2 3)] \<noteq> []
   \<and> 2 \<le> length [(from_point (station 0 0 1), station 0 0 1),
                    (from_point (station 0 1 2), station 0 1 2),
                    (from_point (station 0 2 3), station 0 2 3)]
   \<and> linear_pick_seeds [(from_point (station 0 0 1), station 0 0 1),
                         (from_point (station 0 1 2), station 0 1 2),
                         (from_point (station 0 2 3), station 0 2 3)] = Inr (2, 0)
   \<and> (\<exists>s1 s2. linear_pick_seeds [(from_point (station 0 0 1), station 0 0 1),
                         (from_point (station 0 1 2), station 0 1 2),
                         (from_point (station 0 2 3), station 0 2 3)] = Inr (s1, s2)
          \<and> s1 < 3 \<and> s2 < 3 \<and> s1 \<noteq> s2)
   \<and> [(\<lparr>min_lat = 0, max_lat = 2, min_lon = 0, max_lon = 1\<rparr>, Leaf None [])] \<noteq> []
   \<and> length [(\<lparr>min_lat = 0, max_lat = 2, min_lon = 0, max_lon = 1\<rparr>, Leaf None [])] = 1
   \<and> linear_pick_seeds [(\<lparr>min_lat = 0, max_lat = 2, min_lon = 0, max_lon = 1\<rparr>, Leaf None [])]
       = Inr (0, 0)"
proof -
  let ?es = "[(from_point (station 0 0 1), station 0 0 1),
              (from_point (station 0 1 2), station 0 1 2),
              (from_point (station 0 2 3), station 0 2 3)]"
  let ?one = "[(\<lparr>min_lat = 0, max_lat = 2, min_lon = 0, max_lon = 1\<rparr>, Leaf None [])]"
  have ne: "?es \<noteq> []" and two: "2 \<le> length ?es" by simp_all
  have ne1: "?one \<noteq> []" and len1: "length ?one = 1" by simp_all
  have ev: "linear_pick_seeds ?es = Inr (2, 0)" by code_simp
  note a = linear_pick_seeds_axis[OF ne, THEN conjunct2, THEN mp, OF two]
  from a have a': "\<exists>s1 s2. linear_pick_seeds ?es = Inr (s1, s2) \<and> s1 < 3 \<and> s2 < 3 \<and> s1 \<noteq> s2"
    by auto
  note b = linear_pick_seeds_axis[OF ne1, THEN conjunct1, THEN mp, OF len1]
  from ne two ev a' ne1 len1 b show ?thesis by (intro conjI)
qed


text \<open>
  C6, as the specification states it for every non-empty list, fails on a list of one
  entry, which \<open>_split_node\<close> passes when \<open>max_entries\<close> is 0: both seeds are the index 0, and
  there is no other index to fall back to.
\<close>

theorem linear_pick_seeds_single_entry:
  "linear_pick_seeds [(from_point (station 0 0 1), station 0 0 1)] = Inr (0, 0)"
  by code_simp





end
